theory Spec2Isabelle
  imports Main "HOL-Library.List_Lexorder" "HOL-Library.Char_ord" "HOL-Library.Sublist"
begin

section \<open>Snapshot keys (backup.py: \<open>BaseBackup._build_key\<close>)\<close>

text \<open>
  \<open>datetime.now()\<close> is a naive date and time; Python compares two of them field by
  field, the year first.
\<close>

record datetime =
  year :: nat
  month :: nat
  day :: nat
  hour :: nat
  minute :: nat
  second :: nat
  microsecond :: nat

definition dt_fields :: "datetime \<Rightarrow> nat list" where
  "dt_fields t = [year t, month t, day t, hour t, minute t, second t, microsecond t]"

definition dt_less :: "datetime \<Rightarrow> datetime \<Rightarrow> bool" where
  "dt_less t1 t2 \<longleftrightarrow> dt_fields t1 < dt_fields t2"

text \<open>The ranges the \<open>datetime\<close> constructor enforces (the length of the month apart).\<close>

definition valid_dt :: "datetime \<Rightarrow> bool" where
  "valid_dt t \<longleftrightarrow> 1 \<le> year t \<and> year t \<le> 9999 \<and> 1 \<le> month t \<and> month t \<le> 12
     \<and> 1 \<le> day t \<and> day t \<le> 31 \<and> hour t < 24 \<and> minute t < 60 \<and> second t < 60
     \<and> microsecond t < 1000000"

definition digit_char :: "nat \<Rightarrow> char" where
  "digit_char n = char_of (48 + n)"

text \<open>Decimal rendering in a fixed width, zero-padded on the left.\<close>

fun zpad :: "nat \<Rightarrow> nat \<Rightarrow> string" where
  "zpad 0 n = []"
| "zpad (Suc w) n = zpad w (n div 10) @ [digit_char (n mod 10)]"

text \<open>
  The directives of \<open>strftime\<close> that the substitution of \<open>_build_key\<close> can produce, and
  the escaped percent sign. For a year below 1000 the C library decides whether \<open>%Y\<close>
  is padded; here it is, and the theorems on keys take years of four digits. Any other
  directive is outside this model (\<open>None\<close>). The format is handed to the C library as
  a string that ends at its first NUL character: \<open>datetime.strftime\<close> renders the text
  before it and drops the rest.
\<close>

definition directive :: "char \<Rightarrow> datetime \<Rightarrow> string option" where
  "directive c t =
     (if c = CHR ''Y'' then Some (zpad 4 (year t))
      else if c = CHR ''y'' then Some (zpad 2 (year t mod 100))
      else if c = CHR ''m'' then Some (zpad 2 (month t))
      else if c = CHR ''d'' then Some (zpad 2 (day t))
      else if c = CHR ''H'' then Some (zpad 2 (hour t))
      else if c = CHR ''M'' then Some (zpad 2 (minute t))
      else if c = CHR ''S'' then Some (zpad 2 (second t))
      else if c = CHR ''f'' then Some (zpad 6 (microsecond t))
      else if c = CHR ''%'' then Some ''%''
      else None)"

fun strftime :: "string \<Rightarrow> datetime \<Rightarrow> string option" where
  "strftime [] t = Some []"
| "strftime [c] t =
     (if c = CHR 0x00 then Some [] else if c = CHR ''%'' then None else Some [c])"
| "strftime (c # d # cs) t =
     (if c = CHR 0x00 then Some []
      else if c = CHR ''%''
      then (case directive d t of
              None \<Rightarrow> None
            | Some s \<Rightarrow> map_option (\<lambda>r. s @ r) (strftime cs t))
      else map_option (\<lambda>r. c # r) (strftime (d # cs) t))"

text \<open>\<open>re.sub(r'([YymdHMSf])', r'%\1', fmt)\<close>: every field letter gets a percent sign.\<close>

definition is_field :: "char \<Rightarrow> bool" where
  "is_field c \<longleftrightarrow> c \<in> set ''YymdHMSf''"

definition re_sub_fields :: "string \<Rightarrow> string" where
  "re_sub_fields fmt = concat (map (\<lambda>c. if is_field c then [CHR ''%'', c] else [c]) fmt)"

definition build_key :: "string \<Rightarrow> datetime \<Rightarrow> string option" where
  "build_key fmt t = strftime (re_sub_fields fmt) t"

text \<open>
  A literal part of a key format: ASCII characters other than NUL, the field letters and
  the percent sign.
\<close>

definition literal :: "string \<Rightarrow> bool" where
  "literal s \<longleftrightarrow>
     list_all (\<lambda>c. \<not> is_field c \<and> c \<noteq> CHR ''%'' \<and> c \<noteq> CHR 0x00 \<and> (of_char c :: nat) < 128) s"

text \<open>The formats that list all seven fields, the most significant first.\<close>

definition ordered_fmt ::
  "string \<Rightarrow> string \<Rightarrow> string \<Rightarrow> string \<Rightarrow> string \<Rightarrow> string \<Rightarrow> string \<Rightarrow> string \<Rightarrow> string" where
  "ordered_fmt s0 s1 s2 s3 s4 s5 s6 s7 =
     s0 @ ''Y'' @ s1 @ ''m'' @ s2 @ ''d'' @ s3 @ ''H'' @ s4 @ ''M'' @ s5 @ ''S'' @ s6 @ ''f'' @ s7"

text \<open>What a format without percent signs renders to, character by character.\<close>

definition render_char :: "datetime \<Rightarrow> char \<Rightarrow> string" where
  "render_char t c = (if is_field c then the (directive c t) else [c])"

section \<open>Paths (posixpath) and the target file system's names (filesystem.py)\<close>

text \<open>\<open>s.split('/')\<close>: the pieces between the separators, empty pieces included.\<close>

fun split_sep :: "string \<Rightarrow> string list" where
  "split_sep [] = [[]]"
| "split_sep (c # cs) =
     (if c = CHR ''/'' then [] # split_sep cs
      else (case split_sep cs of [] \<Rightarrow> [[c]] | w # ws \<Rightarrow> (c # w) # ws))"

text \<open>\<open>os.path.join\<close> of two paths.\<close>

definition join :: "string \<Rightarrow> string \<Rightarrow> string" where
  "join a b =
     (if b \<noteq> [] \<and> hd b = CHR ''/'' then b
      else if a = [] \<or> last a = CHR ''/'' then a @ b
      else a @ ''/'' @ b)"

text \<open>
  \<open>os.path.dirname\<close>: the text up to the last separator; trailing separators of that
  head are dropped unless it consists of separators only. So the directory name of
  \<open>a/b/\<close> is \<open>a/b\<close>.
\<close>

definition dirname :: "string \<Rightarrow> string" where
  "dirname p =
     (let head = rev (dropWhile (\<lambda>c. c \<noteq> CHR ''/'') (rev p))
      in if head \<noteq> [] \<and> \<not> list_all (\<lambda>c. c = CHR ''/'') head
         then rev (dropWhile (\<lambda>c. c = CHR ''/'') (rev head))
         else head)"

definition basename :: "string \<Rightarrow> string" where
  "basename p = rev (takeWhile (\<lambda>c. c \<noteq> CHR ''/'') (rev p))"

text \<open>The names a path walks through, and whether it ends in a separator.\<close>

definition comps :: "string \<Rightarrow> string list" where
  "comps p = filter (\<lambda>w. w \<noteq> []) (split_sep p)"

definition trailing :: "string \<Rightarrow> bool" where
  "trailing p \<longleftrightarrow> p \<noteq> [] \<and> last p = CHR ''/''"

text \<open>The relative path with the given names: they are joined by separators.\<close>

fun join_comps :: "string list \<Rightarrow> string" where
  "join_comps [] = []"
| "join_comps [c] = c"
| "join_comps (c # d # cs) = c @ ''/'' @ join_comps (d # cs)"

text \<open>
  The classes of filesystem.py. \<open>forbidden_chars\<close> of \<open>Ntfs\<close> is the string
  \<^verbatim>\<open>"*/:<>?\|\<close>, that of \<open>Fat32\<close> adds \<^verbatim>\<open>+,.;=[]\<close>, that of \<open>Ext4\<close> is the separator.
\<close>

datatype fstype = BaseFs | Ntfs | Fat32 | Ext4

definition forbidden_chars :: "fstype \<Rightarrow> string" where
  "forbidden_chars fs =
     (case fs of
        BaseFs \<Rightarrow> []
      | Ntfs \<Rightarrow> [CHR 0x22, CHR ''*'', CHR ''/'', CHR '':'', CHR ''<'', CHR ''>'', CHR ''?'',
                 CHR 0x5C, CHR ''|'']
      | Fat32 \<Rightarrow> [CHR 0x22, CHR ''*'', CHR ''/'', CHR '':'', CHR ''<'', CHR ''>'', CHR ''?'',
                 CHR 0x5C, CHR ''|'', CHR ''+'', CHR '','', CHR ''.'', CHR '';'', CHR ''='',
                 CHR ''['', CHR '']'']
      | Ext4 \<Rightarrow> [CHR ''/''])"

definition is_name_allowed :: "fstype \<Rightarrow> string \<Rightarrow> bool" where
  "is_name_allowed fs name \<longleftrightarrow> \<not> list_ex (\<lambda>c. c \<in> set name) (forbidden_chars fs)"

definition is_path_allowed :: "fstype \<Rightarrow> string \<Rightarrow> bool" where
  "is_path_allowed fs p \<longleftrightarrow> list_all (is_name_allowed fs) (split_sep p)"

section \<open>File objects (diff.py: \<open>BaseFile\<close>, \<open>File\<close>, \<open>Symlink\<close>, \<open>Directory\<close>)\<close>

text \<open>
  A file object is its class and its path: \<open>__eq__\<close> compares both. The constructor
  of \<open>Directory\<close> appends the separator to a path that does not end with it.
\<close>

datatype fobj = File string | Symlink string | Directory string

fun path :: "fobj \<Rightarrow> string" where
  "path (File p) = p"
| "path (Symlink p) = p"
| "path (Directory p) = p"

definition mk_directory :: "string \<Rightarrow> fobj" where
  "mk_directory p = Directory (if trailing p then p else p @ ''/'')"

fun is_File :: "fobj \<Rightarrow> bool" where
  "is_File (File p) = True"
| "is_File f = False"

fun is_Symlink :: "fobj \<Rightarrow> bool" where
  "is_Symlink (Symlink p) = True"
| "is_Symlink f = False"

fun is_Directory :: "fobj \<Rightarrow> bool" where
  "is_Directory (Directory p) = True"
| "is_Directory f = False"

text \<open>\<open>unpack_files\<close>: the paths of the file objects.\<close>

definition unpack_files :: "fobj list \<Rightarrow> string list" where
  "unpack_files files = map path files"

section \<open>The file system and the calls of \<open>os\<close>, \<open>shutil\<close> and \<open>tarfile\<close>\<close>

text \<open>
  The state the engine works on. A file system is a finite table from absolute paths,
  given as the list of their names from the root, to nodes: regular files with their
  bytes and modification time, symbolic links with their target text, directories, and
  the two kinds of regular file the engine writes itself, whose byte encoding belongs
  to an external library: a compressed archive with its members (written by
  \<open>tarfile\<close>) and a metadata file with its record (written by \<open>yaml.dump\<close>).
  Device nodes, sockets and fifos are not modelled. A relative path is read from the
  root, and the names \<open>.\<close> and \<open>..\<close> are not interpreted.

  A link is never resolved: the model reads every link as dangling, so \<open>exists\<close>,
  \<open>isfile\<close> and \<open>isdir\<close> are false on it. The engine itself never follows one
  (\<open>os.walk\<close> without \<open>followlinks\<close>, \<open>copy2\<close> with \<open>follow_symlinks=False\<close>).
\<close>

type_synonym bytes = string

datatype mtype = MReg bytes | MSym string | MDir | MOther

datatype member = Member (mname: string) (mtype: mtype)

datatype info = Info (info_dt: string) (info_key: string) (info_added: "string list")
  (info_removed: "string list") (info_changed: "string list")

datatype node = RegN bytes nat | LnkN string | DirN | ArcN "member list" | InfoN info

type_synonym fs = "(string list \<times> node) list"

datatype error = FileNotFoundError | FileExistsError | NotADirectoryError | IsADirectoryError
  | OSError | SameFileError | KeyError | ReadError | AttributeError | AssertionError
  | ValueError | Unmodelled

type_synonym 'a result = "(error + 'a) \<times> fs"

definition ok :: "fs \<Rightarrow> unit result" where
  "ok fs = (Inr (), fs)"

definition fail :: "error \<Rightarrow> fs \<Rightarrow> unit result" where
  "fail e fs = (Inl e, fs)"

text \<open>One statement after another: an exception ends the sequence and keeps the state.\<close>

definition seq :: "(fs \<Rightarrow> unit result) \<Rightarrow> (fs \<Rightarrow> unit result) \<Rightarrow> fs \<Rightarrow> unit result" where
  "seq m k fs = (case m fs of (Inl e, fs') \<Rightarrow> (Inl e, fs') | (Inr u, fs') \<Rightarrow> k fs')"

fun for_each :: "('x \<Rightarrow> fs \<Rightarrow> unit result) \<Rightarrow> 'x list \<Rightarrow> fs \<Rightarrow> unit result" where
  "for_each f [] fs = ok fs"
| "for_each f (x # xs) fs = seq (f x) (for_each f xs) fs"

subsection \<open>Reading\<close>

definition raw :: "fs \<Rightarrow> string list \<Rightarrow> node option" where
  "raw fs cs = (if cs = [] then Some DirN else map_of fs cs)"

text \<open>
  \<open>os.lstat\<close>: a path that ends in a separator names a directory or nothing; the empty
  path names nothing.
\<close>

definition lstat :: "fs \<Rightarrow> string \<Rightarrow> node option" where
  "lstat fs p =
     (if p = [] then None
      else (case raw fs (comps p) of
              None \<Rightarrow> None
            | Some n \<Rightarrow> if trailing p \<and> n \<noteq> DirN then None else Some n))"

definition lexists :: "fs \<Rightarrow> string \<Rightarrow> bool" where
  "lexists fs p \<longleftrightarrow> lstat fs p \<noteq> None"

definition islink :: "fs \<Rightarrow> string \<Rightarrow> bool" where
  "islink fs p \<longleftrightarrow> (case lstat fs p of Some (LnkN t) \<Rightarrow> True | _ \<Rightarrow> False)"

definition isdir :: "fs \<Rightarrow> string \<Rightarrow> bool" where
  "isdir fs p \<longleftrightarrow> lstat fs p = Some DirN"

definition isfile :: "fs \<Rightarrow> string \<Rightarrow> bool" where
  "isfile fs p \<longleftrightarrow>
     (case lstat fs p of
        Some (RegN b m) \<Rightarrow> True | Some (ArcN ms) \<Rightarrow> True | Some (InfoN i) \<Rightarrow> True
      | _ \<Rightarrow> False)"

definition exists :: "fs \<Rightarrow> string \<Rightarrow> bool" where
  "exists fs p \<longleftrightarrow> isdir fs p \<or> isfile fs p"

text \<open>The names directly below a directory, each once.\<close>

definition children :: "fs \<Rightarrow> string list \<Rightarrow> string list" where
  "children fs cs =
     remdups (map last (filter (\<lambda>k. k \<noteq> [] \<and> butlast k = cs) (map fst fs)))"

definition os_listdir :: "fs \<Rightarrow> string \<Rightarrow> error + string list" where
  "os_listdir fs p =
     (case lstat fs p of
        None \<Rightarrow> Inl FileNotFoundError
      | Some DirN \<Rightarrow> Inr (children fs (comps p))
      | Some n \<Rightarrow> Inl NotADirectoryError)"

definition os_readlink :: "fs \<Rightarrow> string \<Rightarrow> error + string" where
  "os_readlink fs p =
     (case lstat fs p of
        None \<Rightarrow> Inl FileNotFoundError
      | Some (LnkN t) \<Rightarrow> Inr t
      | Some n \<Rightarrow> Inl OSError)"

text \<open>\<open>open(path, 'rb')\<close> and reading all of it.\<close>

definition read_bytes :: "fs \<Rightarrow> string \<Rightarrow> error + bytes" where
  "read_bytes fs p =
     (case lstat fs p of
        None \<Rightarrow> Inl FileNotFoundError
      | Some (RegN b m) \<Rightarrow> Inr b
      | Some DirN \<Rightarrow> Inl IsADirectoryError
      | Some (LnkN t) \<Rightarrow> Inl FileNotFoundError
      | Some n \<Rightarrow> Inl Unmodelled)"

subsection \<open>Writing\<close>

definition set_node :: "string list \<Rightarrow> node \<Rightarrow> fs \<Rightarrow> fs" where
  "set_node cs n fs = (cs, n) # filter (\<lambda>kv. fst kv \<noteq> cs) fs"

definition del_node :: "string list \<Rightarrow> fs \<Rightarrow> fs" where
  "del_node cs fs = filter (\<lambda>kv. fst kv \<noteq> cs) fs"

definition del_tree :: "string list \<Rightarrow> fs \<Rightarrow> fs" where
  "del_tree cs fs = filter (\<lambda>kv. \<not> prefix cs (fst kv)) fs"

definition rekey :: "string list \<Rightarrow> string list \<Rightarrow> string list \<Rightarrow> string list" where
  "rekey old new k = (if prefix old k then new @ drop (length old) k else k)"

definition move_tree :: "string list \<Rightarrow> string list \<Rightarrow> fs \<Rightarrow> fs" where
  "move_tree old new fs = map (\<lambda>kv. (rekey old new (fst kv), snd kv)) (del_tree new fs)"

text \<open>What a new entry at the names \<open>cs\<close> needs: its parent is a directory.\<close>

definition parent_error :: "fs \<Rightarrow> string list \<Rightarrow> error option" where
  "parent_error fs cs =
     (case raw fs (butlast cs) of
        Some DirN \<Rightarrow> None
      | None \<Rightarrow> Some FileNotFoundError
      | Some (LnkN t) \<Rightarrow> Some FileNotFoundError
      | Some n \<Rightarrow> Some NotADirectoryError)"

definition mkdir_c :: "string list \<Rightarrow> fs \<Rightarrow> unit result" where
  "mkdir_c cs fs =
     (if raw fs cs \<noteq> None then fail FileExistsError fs
      else (case parent_error fs cs of
              Some e \<Rightarrow> fail e fs
            | None \<Rightarrow> ok (set_node cs DirN fs)))"

definition os_mkdir :: "string \<Rightarrow> fs \<Rightarrow> unit result" where
  "os_mkdir p fs = (if p = [] then fail FileNotFoundError fs else mkdir_c (comps p) fs)"

text \<open>
  \<open>os.makedirs\<close>: every missing directory on the way is made, the last one must be
  new. \<open>FileExistsError\<close> on the way is passed over, as the library does.
\<close>

definition exists_c :: "fs \<Rightarrow> string list \<Rightarrow> bool" where
  "exists_c fs cs \<longleftrightarrow> (case raw fs cs of None \<Rightarrow> False | Some (LnkN t) \<Rightarrow> False | Some n \<Rightarrow> True)"

fun makedirs_from :: "string list \<Rightarrow> string list \<Rightarrow> fs \<Rightarrow> unit result" where
  "makedirs_from par [] fs = ok fs"
| "makedirs_from par (c # cs) fs =
     (if cs \<noteq> [] \<and> exists_c fs (par @ [c]) then makedirs_from (par @ [c]) cs fs
      else (case mkdir_c (par @ [c]) fs of
              (Inl e, fs') \<Rightarrow>
                if cs \<noteq> [] \<and> e = FileExistsError then makedirs_from (par @ [c]) cs fs'
                else (Inl e, fs')
            | (Inr u, fs') \<Rightarrow> makedirs_from (par @ [c]) cs fs'))"

definition os_makedirs :: "string \<Rightarrow> fs \<Rightarrow> unit result" where
  "os_makedirs p fs =
     (if p = [] then fail FileNotFoundError fs
      else if comps p = [] then fail FileExistsError fs
      else makedirs_from [] (comps p) fs)"

text \<open>\<open>os.unlink\<close> and \<open>os.remove\<close>.\<close>

definition os_unlink :: "string \<Rightarrow> fs \<Rightarrow> unit result" where
  "os_unlink p fs =
     (case lstat fs p of
        None \<Rightarrow> fail FileNotFoundError fs
      | Some DirN \<Rightarrow> fail IsADirectoryError fs
      | Some n \<Rightarrow> ok (del_node (comps p) fs))"

definition os_rmdir :: "string \<Rightarrow> fs \<Rightarrow> unit result" where
  "os_rmdir p fs =
     (case lstat fs p of
        None \<Rightarrow> fail FileNotFoundError fs
      | Some DirN \<Rightarrow>
          if children fs (comps p) = [] \<and> comps p \<noteq> [] then ok (del_node (comps p) fs)
          else fail OSError fs
      | Some n \<Rightarrow> fail NotADirectoryError fs)"

text \<open>\<open>shutil.rmtree\<close> refuses a symbolic link and anything that is not a directory.\<close>

definition shutil_rmtree :: "string \<Rightarrow> fs \<Rightarrow> unit result" where
  "shutil_rmtree p fs =
     (case lstat fs p of
        None \<Rightarrow> fail FileNotFoundError fs
      | Some DirN \<Rightarrow> if comps p = [] then fail OSError fs else ok (del_tree (comps p) fs)
      | Some (LnkN t) \<Rightarrow> fail OSError fs
      | Some n \<Rightarrow> fail NotADirectoryError fs)"

text \<open>
  \<open>os.rename\<close>: the entry and all below it move. An existing destination is replaced
  if it is an empty directory (for a directory) or not a directory (for the rest).
\<close>

definition os_rename :: "string \<Rightarrow> string \<Rightarrow> fs \<Rightarrow> unit result" where
  "os_rename src dst fs =
     (case lstat fs src of
        None \<Rightarrow> fail FileNotFoundError fs
      | Some n \<Rightarrow>
          if dst = [] then fail FileNotFoundError fs
          else if comps src = [] \<or> comps dst = [] then fail OSError fs
          else if comps src = comps dst then ok fs
          else if prefix (comps src) (comps dst) then fail OSError fs
          else (case parent_error fs (comps dst) of
                  Some e \<Rightarrow> fail e fs
                | None \<Rightarrow>
                   (case raw fs (comps dst) of
                      None \<Rightarrow>
                        if trailing dst \<and> n \<noteq> DirN then fail NotADirectoryError fs
                        else ok (move_tree (comps src) (comps dst) fs)
                    | Some DirN \<Rightarrow>
                        if n \<noteq> DirN then fail IsADirectoryError fs
                        else if children fs (comps dst) \<noteq> [] then fail OSError fs
                        else ok (move_tree (comps src) (comps dst) fs)
                    | Some m \<Rightarrow>
                        if n = DirN \<or> trailing dst then fail NotADirectoryError fs
                        else ok (move_tree (comps src) (comps dst) fs))))"

text \<open>
  \<open>shutil.copy2(src, dst, follow_symlinks=False)\<close>. A destination that is a directory
  stands for the entry of the source's name inside it. A link is made anew with the same
  target, which needs a free destination. A regular file is written with its bytes and
  its modification time (\<open>copystat\<close>). Writing onto an existing link goes through the
  link to its target; links are not resolved here, so such a write is outside this model
  (\<open>Unmodelled\<close>) and nothing is stated about a run that makes one.
\<close>

definition shutil_copy2 :: "string \<Rightarrow> string \<Rightarrow> fs \<Rightarrow> unit result" where
  "shutil_copy2 src dst0 fs =
     (let dst = (if isdir fs dst0 then join dst0 (basename src) else dst0)
      in case lstat fs src of
           None \<Rightarrow> fail FileNotFoundError fs
         | Some DirN \<Rightarrow> fail IsADirectoryError fs
         | Some (LnkN t) \<Rightarrow>
             if dst = [] then fail FileNotFoundError fs
             else if raw fs (comps dst) \<noteq> None then fail FileExistsError fs
             else (case parent_error fs (comps dst) of
                     Some e \<Rightarrow> fail e fs
                   | None \<Rightarrow> ok (set_node (comps dst) (LnkN t) fs))
         | Some n \<Rightarrow>
             if dst = [] then fail FileNotFoundError fs
             else if comps src = comps dst then fail SameFileError fs
             else (case raw fs (comps dst) of
                     Some DirN \<Rightarrow> fail IsADirectoryError fs
                   | Some (LnkN t) \<Rightarrow> fail Unmodelled fs
                   | Some m \<Rightarrow>
                       if trailing dst then fail NotADirectoryError fs
                       else ok (set_node (comps dst) n fs)
                   | None \<Rightarrow>
                       if trailing dst then fail IsADirectoryError fs
                       else (case parent_error fs (comps dst) of
                               Some e \<Rightarrow> fail e fs
                             | None \<Rightarrow> ok (set_node (comps dst) n fs))))"

text \<open>
  \<open>open(path, 'w')\<close> and writing a node that is a regular file. On a path that is a
  link the file behind the link is written, which is outside this model as for
  \<open>copy2\<close>.
\<close>

definition write_file :: "string \<Rightarrow> node \<Rightarrow> fs \<Rightarrow> unit result" where
  "write_file p n fs =
     (if p = [] then fail FileNotFoundError fs
      else (case raw fs (comps p) of
              Some DirN \<Rightarrow> fail IsADirectoryError fs
            | Some (LnkN t) \<Rightarrow> fail Unmodelled fs
            | Some m \<Rightarrow> if trailing p then fail NotADirectoryError fs
                        else ok (set_node (comps p) n fs)
            | None \<Rightarrow>
                if trailing p then fail IsADirectoryError fs
                else (case parent_error fs (comps p) of
                        Some e \<Rightarrow> fail e fs
                      | None \<Rightarrow> ok (set_node (comps p) n fs))))"

text \<open>
  The tables that are file systems: the names are not empty and hold no separator, and
  the parent of every entry is a directory.
\<close>

definition valid_name :: "string \<Rightarrow> bool" where
  "valid_name c \<longleftrightarrow> c \<noteq> [] \<and> CHR ''/'' \<notin> set c"

definition wf_fs :: "fs \<Rightarrow> bool" where
  "wf_fs fs \<longleftrightarrow>
     list_all (\<lambda>kv. fst kv \<noteq> [] \<and> list_all valid_name (fst kv)
                 \<and> raw fs (butlast (fst kv)) = Some DirN) fs"

text \<open>A statement keeps a property of the file system, however it ends.\<close>

definition preserves :: "(fs \<Rightarrow> bool) \<Rightarrow> (fs \<Rightarrow> unit result) \<Rightarrow> bool" where
  "preserves P m \<longleftrightarrow> (\<forall>fs. P fs \<longrightarrow> P (snd (m fs)))"

definition preserves_fuel :: "(fs \<Rightarrow> bool) \<Rightarrow> (fs \<Rightarrow> unit result option) \<Rightarrow> bool" where
  "preserves_fuel P m \<longleftrightarrow> (\<forall>fs r. P fs \<longrightarrow> m fs = Some r \<longrightarrow> P (snd r))"

text \<open>
  The names and paths the model reads as the operating system does: a name other than
  \<open>.\<close> and \<open>..\<close>, and a path made of such names.
\<close>

definition plain_name :: "string \<Rightarrow> bool" where
  "plain_name c \<longleftrightarrow> valid_name c \<and> c \<noteq> ''.'' \<and> c \<noteq> ''..''"

definition plain_path :: "string \<Rightarrow> bool" where
  "plain_path p \<longleftrightarrow> list_all plain_name (comps p)"

text \<open>
  Where a statement writes: outside the trees below the roots \<open>X\<close> every entry stays as
  it is, except that a missing directory on the way to a root may be made.
\<close>

definition frame_step :: "string list set \<Rightarrow> fs \<Rightarrow> fs \<Rightarrow> bool" where
  "frame_step X fs fs' \<longleftrightarrow>
     (\<forall>k. (\<forall>x\<in>X. \<not> prefix x k) \<longrightarrow>
          raw fs' k = raw fs k
          \<or> (raw fs k = None \<and> raw fs' k = Some DirN \<and> (\<exists>x\<in>X. prefix k x)))"

definition frame :: "string list set \<Rightarrow> (fs \<Rightarrow> unit result) \<Rightarrow> bool" where
  "frame X m \<longleftrightarrow> (\<forall>fs. wf_fs fs \<longrightarrow> frame_step X fs (snd (m fs)))"

definition frame_fuel :: "string list set \<Rightarrow> (fs \<Rightarrow> unit result option) \<Rightarrow> bool" where
  "frame_fuel X m \<longleftrightarrow> (\<forall>fs r. wf_fs fs \<longrightarrow> m fs = Some r \<longrightarrow> frame_step X fs (snd r))"

text \<open>A relative path that names something: the paths of the file objects of a catalog.\<close>

definition rel_path :: "string \<Rightarrow> bool" where
  "rel_path p \<longleftrightarrow> comps p \<noteq> [] \<and> hd p \<noteq> CHR ''/''"

subsection \<open>Archives (\<open>tarfile\<close>)\<close>

definition tar_open :: "fs \<Rightarrow> string \<Rightarrow> error + member list" where
  "tar_open fs p =
     (case lstat fs p of
        None \<Rightarrow> Inl FileNotFoundError
      | Some (ArcN ms) \<Rightarrow> Inr ms
      | Some DirN \<Rightarrow> Inl IsADirectoryError
      | Some (LnkN t) \<Rightarrow> Inl FileNotFoundError
      | Some n \<Rightarrow> Inl ReadError)"

definition member_of_node :: "string \<Rightarrow> node \<Rightarrow> error + member" where
  "member_of_node nm n =
     (case n of
        RegN b m \<Rightarrow> Inr (Member nm (MReg b))
      | LnkN t \<Rightarrow> Inr (Member nm (MSym t))
      | DirN \<Rightarrow> Inr (Member nm MDir)
      | _ \<Rightarrow> Inl Unmodelled)"

fun collect_results :: "(error + 'a) list \<Rightarrow> error + 'a list" where
  "collect_results [] = Inr []"
| "collect_results (Inl e # rs) = Inl e"
| "collect_results (Inr x # rs) = (case collect_results rs of Inl e \<Rightarrow> Inl e | Inr xs \<Rightarrow> Inr (x # xs))"

text \<open>
  \<open>tar.add(path, folder)\<close>: the entry itself under the name \<open>folder\<close>, then everything
  below it, each directory before its content and the names of a directory in sorted
  order, which is the lexicographic order of the lists of names. The archive being
  written is left out.
\<close>

definition tar_add :: "fs \<Rightarrow> string \<Rightarrow> string \<Rightarrow> string list \<Rightarrow> error + member list" where
  "tar_add fs p folder self =
     (case lstat fs p of
        None \<Rightarrow> Inl FileNotFoundError
      | Some n \<Rightarrow>
          collect_results
            (member_of_node folder n #
             map (\<lambda>k. member_of_node (join_comps (folder # drop (length (comps p)) k))
                        (case map_of fs k of Some m \<Rightarrow> m | None \<Rightarrow> DirN))
               (sort (remdups (filter (\<lambda>k. strict_prefix (comps p) k \<and> k \<noteq> self)
                  (map fst fs))))))"

section \<open>utils.py\<close>

definition copy_file :: "string \<Rightarrow> string \<Rightarrow> fstype option \<Rightarrow> fs \<Rightarrow> unit result" where
  "copy_file src dst dst_fs fs =
     (case dst_fs of
        None \<Rightarrow> shutil_copy2 src dst fs
      | Some t \<Rightarrow> if is_path_allowed t dst then shutil_copy2 src dst fs else ok fs)"

text \<open>
  \<open>copy_tree\<close> calls itself for every directory below the source. When the destination
  lies inside the source the recursion does not end, so the model counts the depth down
  and answers \<open>None\<close> when it runs out.
\<close>

fun for_each_fuel ::
  "('x \<Rightarrow> fs \<Rightarrow> unit result option) \<Rightarrow> 'x list \<Rightarrow> fs \<Rightarrow> unit result option" where
  "for_each_fuel f [] fs = Some (ok fs)"
| "for_each_fuel f (x # xs) fs =
     (case f x fs of
        None \<Rightarrow> None
      | Some (Inl e, fs') \<Rightarrow> Some (Inl e, fs')
      | Some (Inr u, fs') \<Rightarrow> for_each_fuel f xs fs')"

primrec copy_tree :: "nat \<Rightarrow> string \<Rightarrow> string \<Rightarrow> fstype option \<Rightarrow> fs \<Rightarrow> unit result option"
  where
  "copy_tree 0 src dst dst_fs fs = None"
| "copy_tree (Suc n) src dst dst_fs fs =
     (if (case dst_fs of None \<Rightarrow> False | Some t \<Rightarrow> \<not> is_path_allowed t dst) then Some (ok fs)
      else (case os_mkdir dst fs of
              (Inl e, fs') \<Rightarrow> Some (Inl e, fs')
            | (Inr u, fs') \<Rightarrow>
                (case os_listdir fs' src of
                   Inl e \<Rightarrow> Some (Inl e, fs')
                 | Inr names \<Rightarrow>
                     for_each_fuel
                       (\<lambda>name fs1.
                          if isdir fs1 (join src name)
                          then (if islink fs1 (join src name)
                                then Some (copy_file (join src name) (join dst name) dst_fs fs1)
                                else copy_tree n (join src name) (join dst name) dst_fs fs1)
                          else Some (copy_file (join src name) (join dst name) dst_fs fs1))
                       names fs')))"

definition rm_tree :: "string \<Rightarrow> fs \<Rightarrow> unit result" where
  "rm_tree p fs = shutil_rmtree p fs"

definition ensure_dir :: "string \<Rightarrow> fs \<Rightarrow> unit result" where
  "ensure_dir p fs = (if \<not> exists fs p then os_makedirs p fs else ok fs)"

definition save_yaml :: "string \<Rightarrow> info \<Rightarrow> fs \<Rightarrow> unit result" where
  "save_yaml p config fs = write_file p (InfoN config) fs"

text \<open>
  \<open>tar_compress\<close>: the archive file is opened for writing first, then filled; its
  modification time plays no part, an archive is opened and never compared.
\<close>

definition tar_compress :: "string \<Rightarrow> string \<Rightarrow> string \<Rightarrow> fs \<Rightarrow> unit result" where
  "tar_compress p tar_path root fs =
     (if \<not> suffix ''.tar.gz'' tar_path then fail AssertionError fs
      else (case write_file tar_path (ArcN []) fs of
              (Inl e, fs') \<Rightarrow> (Inl e, fs')
            | (Inr u, fs') \<Rightarrow>
                (case tar_add fs' p (if root \<noteq> [] then root else basename p) (comps tar_path) of
                   Inl e \<Rightarrow> (Inl e, fs')
                 | Inr ms \<Rightarrow> write_file tar_path (ArcN ms) fs')))"

section \<open>diff.py\<close>

definition copy_files_step ::
  "string \<Rightarrow> string \<Rightarrow> fstype option \<Rightarrow> string \<Rightarrow> fs \<Rightarrow> unit result" where
  "copy_files_step src dst dst_fs p fs =
     (if (case dst_fs of None \<Rightarrow> False | Some t \<Rightarrow> \<not> is_path_allowed t dst) then ok fs
      else seq (ensure_dir (dirname (join dst p)))
             (\<lambda>fs'. if islink fs' (join src p) \<or> isfile fs' (join src p)
                     then copy_file (join src p) (join dst p) None fs'
                     else if isdir fs' (join src p)
                     then (if \<not> exists fs' (join dst p) then os_mkdir (join dst p) fs' else ok fs')
                     else ok fs') fs)"

definition copy_files :: "fobj list \<Rightarrow> string \<Rightarrow> string \<Rightarrow> fstype option \<Rightarrow> fs \<Rightarrow> unit result" where
  "copy_files files src dst dst_fs fs =
     for_each (copy_files_step src dst dst_fs) (sort (map path files)) fs"

definition remove_files_step :: "string \<Rightarrow> fs \<Rightarrow> unit result" where
  "remove_files_step p fs =
     (if lexists fs p
      then (if islink fs p then os_unlink p fs
            else if isfile fs p then os_unlink p fs
            else if isdir fs p
            then (case os_listdir fs p of
                    Inl e \<Rightarrow> fail e fs
                  | Inr names \<Rightarrow> if names = [] then os_rmdir p fs else ok fs)
            else ok fs)
      else ok fs)"

definition remove_files :: "fobj list \<Rightarrow> string \<Rightarrow> fs \<Rightarrow> unit result" where
  "remove_files files root fs =
     for_each remove_files_step (rev (sort (map (\<lambda>f. join root (path f)) files))) fs"

text \<open>
  \<open>collect_paths\<close>: \<open>os.walk\<close> visits every entry below the root and yields nothing
  when the root is not a directory. Each entry is classified by its own type, and its
  path is relative to the root.
\<close>

definition entry_of :: "string list \<Rightarrow> node \<Rightarrow> fobj" where
  "entry_of rel n =
     (case n of
        DirN \<Rightarrow> mk_directory (join_comps rel)
      | LnkN t \<Rightarrow> Symlink (join_comps rel)
      | _ \<Rightarrow> File (join_comps rel))"

definition collect_paths :: "fs \<Rightarrow> string \<Rightarrow> fobj list" where
  "collect_paths fs root =
     (if isdir fs root
      then remdups (map (\<lambda>kv. entry_of (drop (length (comps root)) (fst kv)) (snd kv))
             (filter (\<lambda>kv. strict_prefix (comps root) (fst kv) \<and> map_of fs (fst kv) = Some (snd kv))
                fs))
      else [])"

text \<open>\<open>name.split('/', 1)\<close>: the text before and after the first separator.\<close>

definition before_sep :: "string \<Rightarrow> string" where
  "before_sep s = takeWhile (\<lambda>c. c \<noteq> CHR ''/'') s"

definition after_sep :: "string \<Rightarrow> string" where
  "after_sep s = tl (dropWhile (\<lambda>c. c \<noteq> CHR ''/'') s)"

definition collect_paths_in_tar :: "fs \<Rightarrow> string \<Rightarrow> error + fobj list" where
  "collect_paths_in_tar fs tar_path =
     (case tar_open fs tar_path of
        Inl e \<Rightarrow> Inl e
      | Inr ms \<Rightarrow>
          Inr (remdups (map (\<lambda>m. case mtype m of
                                   MSym t \<Rightarrow> Symlink (after_sep (mname m))
                                 | MDir \<Rightarrow> mk_directory (after_sep (mname m))
                                 | _ \<Rightarrow> File (after_sep (mname m)))
                 (filter (\<lambda>m. CHR ''/'' \<in> set (mname m)) ms))))"

text \<open>
  \<open>filecmp.cmp(f1, f2)\<close> of the standard library, as it is called here, with its
  default \<open>shallow=True\<close>: the signature of a file is its type, size and modification
  time; two regular files with equal signatures are taken to be equal without being
  read, files of different sizes are different, and only otherwise are the bytes
  compared. (The library also remembers results per process, keyed by paths and
  signatures; the model is the first call.)
\<close>

definition filecmp_cmp :: "fs \<Rightarrow> string \<Rightarrow> string \<Rightarrow> error + bool" where
  "filecmp_cmp fs f1 f2 =
     (case lstat fs f1 of
        None \<Rightarrow> Inl FileNotFoundError
      | Some (LnkN t) \<Rightarrow> Inl FileNotFoundError
      | Some n1 \<Rightarrow>
         (case lstat fs f2 of
            None \<Rightarrow> Inl FileNotFoundError
          | Some (LnkN t) \<Rightarrow> Inl FileNotFoundError
          | Some n2 \<Rightarrow>
             (case (n1, n2) of
                (DirN, _) \<Rightarrow> Inr False
              | (_, DirN) \<Rightarrow> Inr False
              | (RegN b1 m1, RegN b2 m2) \<Rightarrow>
                  Inr (if length b1 = length b2 \<and> m1 = m2 then True
                       else if length b1 \<noteq> length b2 then False
                       else b1 = b2)
              | _ \<Rightarrow> Inl Unmodelled)))"

fun filter_changed_files :: "fs \<Rightarrow> fobj list \<Rightarrow> string \<Rightarrow> string \<Rightarrow> error + fobj list" where
  "filter_changed_files fs [] path1 path2 = Inr []"
| "filter_changed_files fs (File p # files) path1 path2 =
     (case filecmp_cmp fs (join path1 p) (join path2 p) of
        Inl e \<Rightarrow> Inl e
      | Inr eq \<Rightarrow>
          (case filter_changed_files fs files path1 path2 of
             Inl e \<Rightarrow> Inl e
           | Inr filtered \<Rightarrow> Inr (if \<not> eq then File p # filtered else filtered)))"
| "filter_changed_files fs (Symlink p # files) path1 path2 =
     (case os_readlink fs (join path1 p) of
        Inl e \<Rightarrow> Inl e
      | Inr target1 \<Rightarrow>
          (case os_readlink fs (join path2 p) of
             Inl e \<Rightarrow> Inl e
           | Inr target2 \<Rightarrow>
               (case filter_changed_files fs files path1 path2 of
                  Inl e \<Rightarrow> Inl e
                | Inr filtered \<Rightarrow>
                    Inr (if target1 \<noteq> target2 then Symlink p # filtered else filtered))))"
| "filter_changed_files fs (Directory p # files) path1 path2 =
     filter_changed_files fs files path1 path2"

text \<open>
  \<open>_compare_file_objects\<close>: both objects are rewound, then read chunk by chunk; \<open>read\<close>
  gives the next \<open>chunk_size\<close> bytes, fewer at the end. The arguments here are the
  bytes still to be read.
\<close>

function compare_file_objects :: "bytes \<Rightarrow> bytes \<Rightarrow> nat \<Rightarrow> bool" where
  "compare_file_objects fileobj1 fileobj2 chunk_size =
     (if take chunk_size fileobj1 \<noteq> take chunk_size fileobj2 then False
      else if take chunk_size fileobj1 = [] \<and> take chunk_size fileobj2 = [] then True
      else compare_file_objects (drop chunk_size fileobj1) (drop chunk_size fileobj2) chunk_size)"
  by pat_completeness auto
termination
proof (relation "measure (\<lambda>(f1, f2, n). length f1)")
  show "wf (measure (\<lambda>(f1, f2, n). length f1))"
    by simp
next
  fix fileobj1 fileobj2 :: bytes and chunk_size :: nat
  assume eq: "\<not> take chunk_size fileobj1 \<noteq> take chunk_size fileobj2"
    and ne: "\<not> (take chunk_size fileobj1 = [] \<and> take chunk_size fileobj2 = [])"
  from eq ne have "take chunk_size fileobj1 \<noteq> []"
    by auto
  then have "0 < chunk_size" "fileobj1 \<noteq> []"
    by (auto simp: take_eq_Nil)
  then show "((drop chunk_size fileobj1, drop chunk_size fileobj2, chunk_size),
              (fileobj1, fileobj2, chunk_size)) \<in> measure (\<lambda>(f1, f2, n). length f1)"
    by (cases fileobj1) auto
qed

text \<open>\<open>tar.getmember(name)\<close>: the last member of that name.\<close>

definition getmember :: "member list \<Rightarrow> string \<Rightarrow> error + member" where
  "getmember ms nm =
     (case filter (\<lambda>m. mname m = nm) (rev ms) of [] \<Rightarrow> Inl KeyError | m # rest \<Rightarrow> Inr m)"

text \<open>
  \<open>tar.extractfile(member)\<close> gives the bytes of a regular member and \<open>None\<close> for a
  directory; a link member is looked up in the archive, which is not modelled.
\<close>

definition extractfile :: "member \<Rightarrow> error + bytes" where
  "extractfile m =
     (case mtype m of
        MReg b \<Rightarrow> Inr b
      | MSym t \<Rightarrow> Inl Unmodelled
      | _ \<Rightarrow> Inl AttributeError)"

definition linkname :: "member \<Rightarrow> string" where
  "linkname m = (case mtype m of MSym t \<Rightarrow> t | _ \<Rightarrow> [])"

fun filter_changed_in_members ::
  "fs \<Rightarrow> member list \<Rightarrow> string \<Rightarrow> fobj list \<Rightarrow> string \<Rightarrow> error + fobj list" where
  "filter_changed_in_members fs ms root [] dir_path = Inr []"
| "filter_changed_in_members fs ms root (File p # files) dir_path =
     (case read_bytes fs (join dir_path p) of
        Inl e \<Rightarrow> Inl e
      | Inr fileobj1 \<Rightarrow>
         (case getmember ms (join root p) of
            Inl e \<Rightarrow> Inl e
          | Inr m \<Rightarrow>
             (case extractfile m of
                Inl e \<Rightarrow> Inl e
              | Inr fileobj2 \<Rightarrow>
                 (case filter_changed_in_members fs ms root files dir_path of
                    Inl e \<Rightarrow> Inl e
                  | Inr filtered \<Rightarrow>
                      Inr (if \<not> compare_file_objects fileobj1 fileobj2 10000
                           then File p # filtered else filtered)))))"
| "filter_changed_in_members fs ms root (Symlink p # files) dir_path =
     (case os_readlink fs (join dir_path p) of
        Inl e \<Rightarrow> Inl e
      | Inr target1 \<Rightarrow>
         (case getmember ms (join root p) of
            Inl e \<Rightarrow> Inl e
          | Inr m \<Rightarrow>
             (case filter_changed_in_members fs ms root files dir_path of
                Inl e \<Rightarrow> Inl e
              | Inr filtered \<Rightarrow>
                  Inr (if target1 \<noteq> linkname m then Symlink p # filtered else filtered))))"
| "filter_changed_in_members fs ms root (Directory p # files) dir_path =
     filter_changed_in_members fs ms root files dir_path"

definition filter_changed_files_in_tar ::
  "fs \<Rightarrow> fobj list \<Rightarrow> string \<Rightarrow> string \<Rightarrow> error + fobj list" where
  "filter_changed_files_in_tar fs files dir_path tar_path =
     (case tar_open fs tar_path of
        Inl e \<Rightarrow> Inl e
      | Inr ms \<Rightarrow>
         (case ms of
            [] \<Rightarrow> Inl AttributeError
          | m # rest \<Rightarrow> filter_changed_in_members fs ms (before_sep (mname m)) files dir_path))"

section \<open>backup.py\<close>

text \<open>
  The attributes of a \<open>Source\<close> that the backup reads (the period belongs to the
  scheduler). \<open>s_path\<close> is the repository of the source, \<open>join target name\<close>;
  \<open>s_target_fs\<close> is what \<open>determine_fs(target)\<close> found. \<open>s_limit\<close> is \<open>None\<close> or the
  number of the configuration.
\<close>

record source =
  s_name :: string
  s_fmt :: string
  s_source :: string
  s_target :: string
  s_method :: string
  s_compress :: bool
  s_limit :: "int option"
  s_path :: string
  s_target_fs :: fstype

definition Source ::
  "string \<Rightarrow> string \<Rightarrow> string \<Rightarrow> string \<Rightarrow> string \<Rightarrow> bool \<Rightarrow> int option \<Rightarrow> fstype \<Rightarrow> source" where
  "Source name fmt src target method compress limit tfs =
     \<lparr>s_name = name, s_fmt = fmt, s_source = src, s_target = target, s_method = method,
      s_compress = compress, s_limit = limit, s_path = join target name, s_target_fs = tfs\<rparr>"

record diff_map =
  added :: "fobj list"
  removed :: "fobj list"
  changed :: "fobj list"
  same :: "fobj list"

datatype copy_mixin = PlainCopyMixin | DiffCopyMixin

datatype extra_mixin = LastExtraMixin | FullExtraMixin

definition create_backup_from_source :: "source \<Rightarrow> error + copy_mixin \<times> extra_mixin" where
  "create_backup_from_source s =
     (if s_method s = ''full'' then Inr (PlainCopyMixin, FullExtraMixin)
      else if s_method s = ''last'' then Inr (PlainCopyMixin, LastExtraMixin)
      else if s_method s = ''diff'' then Inr (DiffCopyMixin, FullExtraMixin)
      else Inl ValueError)"

definition data_dir :: string where
  "data_dir = ''data''"

definition info_file :: string where
  "info_file = ''info''"

text \<open>\<open>_get_last_key\<close>: the key \<open>depth\<close> places from the end of the sorted listing.\<close>

definition get_last_key :: "fs \<Rightarrow> source \<Rightarrow> nat \<Rightarrow> error + string option" where
  "get_last_key fs s depth =
     (if exists fs (s_path s)
      then (case os_listdir fs (s_path s) of
              Inl e \<Rightarrow> Inl e
            | Inr keys \<Rightarrow>
                Inr (if length keys \<ge> depth then Some (sort keys ! (length keys - depth))
                     else None))
      else Inr None)"

definition create_diff_map :: "fs \<Rightarrow> source \<Rightarrow> string \<Rightarrow> fobj list \<Rightarrow> error + diff_map" where
  "create_diff_map fs s last_data_path paths =
     (let last_paths = collect_paths fs last_data_path;
          similar = filter (\<lambda>f. f \<in> set paths) last_paths
      in case filter_changed_files fs similar (s_source s) last_data_path of
           Inl e \<Rightarrow> Inl e
         | Inr chg \<Rightarrow>
             Inr \<lparr>added = filter (\<lambda>f. f \<notin> set last_paths) paths,
                  removed = filter (\<lambda>f. f \<notin> set paths) last_paths,
                  changed = chg,
                  same = filter (\<lambda>f. f \<notin> set chg) similar\<rparr>)"

definition create_diff_map_in_tar :: "fs \<Rightarrow> source \<Rightarrow> string \<Rightarrow> fobj list \<Rightarrow> error + diff_map" where
  "create_diff_map_in_tar fs s last_data_path paths =
     (case collect_paths_in_tar fs (last_data_path @ ''.tar.gz'') of
        Inl e \<Rightarrow> Inl e
      | Inr last_paths \<Rightarrow>
         (let similar = filter (\<lambda>f. f \<in> set paths) last_paths
          in case filter_changed_files_in_tar fs similar (s_source s)
                    (last_data_path @ ''.tar.gz'') of
               Inl e \<Rightarrow> Inl e
             | Inr chg \<Rightarrow>
                 Inr \<lparr>added = filter (\<lambda>f. f \<notin> set last_paths) paths,
                      removed = filter (\<lambda>f. f \<notin> set paths) last_paths,
                      changed = chg,
                      same = filter (\<lambda>f. f \<notin> set chg) similar\<rparr>))"

text \<open>The catalog of the source tree, with the paths the target file system allows.\<close>

definition source_paths :: "fs \<Rightarrow> source \<Rightarrow> fobj list" where
  "source_paths fs s =
     filter (\<lambda>f. is_path_allowed (s_target_fs s) (path f)) (collect_paths fs (s_source s))"

definition build_diff_map :: "fs \<Rightarrow> source \<Rightarrow> error + diff_map" where
  "build_diff_map fs s =
     (case get_last_key fs s 1 of
        Inl e \<Rightarrow> Inl e
      | Inr None \<Rightarrow> Inr \<lparr>added = source_paths fs s, removed = [], changed = [], same = []\<rparr>
      | Inr (Some last_key) \<Rightarrow>
          if s_compress s \<and> s_method s \<noteq> ''diff''
          then create_diff_map_in_tar fs s (join (join (s_path s) last_key) data_dir)
                 (source_paths fs s)
          else create_diff_map fs s (join (join (s_path s) last_key) data_dir)
                 (source_paths fs s))"

definition has_changes :: "diff_map \<Rightarrow> bool" where
  "has_changes dm \<longleftrightarrow> added dm \<noteq> [] \<or> removed dm \<noteq> [] \<or> changed dm \<noteq> []"

definition prepare_info :: "datetime \<Rightarrow> string \<Rightarrow> diff_map \<Rightarrow> info" where
  "prepare_info dt key dm =
     Info (case strftime ''%Y-%m-%d %H:%M:%S.%f'' dt of Some s \<Rightarrow> s | None \<Rightarrow> [])
       key (unpack_files (added dm)) (unpack_files (removed dm)) (unpack_files (changed dm))"

definition save_info :: "string \<Rightarrow> datetime \<Rightarrow> string \<Rightarrow> diff_map \<Rightarrow> fs \<Rightarrow> unit result" where
  "save_info info_path dt key dm fs = save_yaml info_path (prepare_info dt key dm) fs"

text \<open>\<open>PlainCopyMixin._copy_data\<close>.\<close>

definition plain_copy_data :: "nat \<Rightarrow> source \<Rightarrow> string \<Rightarrow> fs \<Rightarrow> unit result option" where
  "plain_copy_data fuel s data_path fs =
     (if s_compress s
      then Some (tar_compress (s_source s) (data_path @ ''.tar.gz'') data_dir fs)
      else copy_tree fuel (s_source s) data_path (Some (s_target_fs s)) fs)"

text \<open>
  \<open>DiffCopyMixin._copy_data\<close> when a previous backup exists: the statements after the
  test of \<open>prev_key\<close>, in their order.
\<close>

definition diff_rewrite :: "source \<Rightarrow> string \<Rightarrow> string \<Rightarrow> diff_map \<Rightarrow> fs \<Rightarrow> unit result" where
  "diff_rewrite s data_path prev_data_path dm =
     seq (os_rename prev_data_path data_path)
    (seq (os_mkdir prev_data_path)
    (seq (copy_files (changed dm) data_path prev_data_path (Some (s_target_fs s)))
    (seq (copy_files (removed dm) data_path prev_data_path (Some (s_target_fs s)))
    (seq (copy_files (added dm) (s_source s) data_path (Some (s_target_fs s)))
    (seq (copy_files (changed dm) (s_source s) data_path (Some (s_target_fs s)))
    (seq (remove_files (removed dm) data_path)
         (if s_compress s
          then seq (tar_compress prev_data_path (prev_data_path @ ''.tar.gz'') data_dir)
                   (rm_tree prev_data_path)
          else ok)))))))"

definition diff_copy_data ::
  "nat \<Rightarrow> source \<Rightarrow> string \<Rightarrow> diff_map \<Rightarrow> fs \<Rightarrow> unit result option" where
  "diff_copy_data fuel s data_path dm fs =
     (case get_last_key fs s 2 of
        Inl e \<Rightarrow> Some (Inl e, fs)
      | Inr prev_key \<Rightarrow>
          if prev_key \<noteq> None \<and> prev_key \<noteq> Some []
          then Some (diff_rewrite s data_path
                       (join (join (s_path s) (case prev_key of Some k \<Rightarrow> k | None \<Rightarrow> []))
                          data_dir) dm fs)
          else copy_tree fuel (s_source s) data_path (Some (s_target_fs s)) fs)"

definition copy_data ::
  "copy_mixin \<Rightarrow> nat \<Rightarrow> source \<Rightarrow> string \<Rightarrow> diff_map \<Rightarrow> fs \<Rightarrow> unit result option" where
  "copy_data cm fuel s data_path dm fs =
     (case cm of
        PlainCopyMixin \<Rightarrow> plain_copy_data fuel s data_path fs
      | DiffCopyMixin \<Rightarrow> diff_copy_data fuel s data_path dm fs)"

text \<open>\<open>LastExtraMixin._remove_extra\<close> and \<open>FullExtraMixin._remove_extra\<close>.\<close>

definition last_remove_extra :: "source \<Rightarrow> string \<Rightarrow> fs \<Rightarrow> unit result" where
  "last_remove_extra s key fs =
     (case os_listdir fs (s_path s) of
        Inl e \<Rightarrow> fail e fs
      | Inr keys \<Rightarrow>
          for_each (\<lambda>k. if k \<noteq> key then rm_tree (join (s_path s) k) else ok) keys fs)"

definition keys_to_remove :: "string list \<Rightarrow> int \<Rightarrow> string list" where
  "keys_to_remove keys limit = take (nat (int (length keys) - limit)) (sort keys)"

definition full_remove_extra :: "source \<Rightarrow> fs \<Rightarrow> unit result" where
  "full_remove_extra s fs =
     (case s_limit s of
        None \<Rightarrow> ok fs
      | Some limit \<Rightarrow>
          if limit = 0 then ok fs
          else (case os_listdir fs (s_path s) of
                  Inl e \<Rightarrow> fail e fs
                | Inr keys \<Rightarrow>
                    if int (length keys) > limit
                    then for_each (\<lambda>k. rm_tree (join (s_path s) k)) (keys_to_remove keys limit) fs
                    else ok fs))"

definition remove_extra :: "extra_mixin \<Rightarrow> source \<Rightarrow> string \<Rightarrow> fs \<Rightarrow> unit result" where
  "remove_extra em s key fs =
     (case em of
        LastExtraMixin \<Rightarrow> last_remove_extra s key fs
      | FullExtraMixin \<Rightarrow> full_remove_extra s fs)"

text \<open>
  \<open>BaseBackup.make\<close> at the time \<open>dt\<close>, for the class made of the two mixins. A key
  format outside the model of \<open>strftime\<close> gives \<open>Unmodelled\<close>.
\<close>

definition make ::
  "nat \<Rightarrow> copy_mixin \<times> extra_mixin \<Rightarrow> source \<Rightarrow> datetime \<Rightarrow> fs \<Rightarrow> unit result option" where
  "make fuel cls s dt fs =
     (case build_key (s_fmt s) dt of
        None \<Rightarrow> Some (Inl Unmodelled, fs)
      | Some key \<Rightarrow>
         (case build_diff_map fs s of
            Inl e \<Rightarrow> Some (Inl e, fs)
          | Inr dm \<Rightarrow>
              if has_changes dm
              then (case ensure_dir (join (s_path s) key) fs of
                      (Inl e, fs1) \<Rightarrow> Some (Inl e, fs1)
                    | (Inr u, fs1) \<Rightarrow>
                       (case copy_data (fst cls) fuel s (join (join (s_path s) key) data_dir)
                               dm fs1 of
                          None \<Rightarrow> None
                        | Some (Inl e, fs2) \<Rightarrow> Some (Inl e, fs2)
                        | Some (Inr u, fs2) \<Rightarrow>
                            Some (seq (save_info (join (join (s_path s) key) info_file) dt key dm)
                                    (remove_extra (snd cls) s key) fs2)))
              else Some (ok fs)))"

text \<open>
  What the data model asks of a diff map for the catalogs \<open>prev\<close> and \<open>cur\<close>: the four
  parts are pairwise disjoint and cover both catalogs, with the added, removed and
  changed parts where they belong, and no directory among the changed.
\<close>

definition diff_partition :: "diff_map \<Rightarrow> fobj set \<Rightarrow> fobj set \<Rightarrow> bool" where
  "diff_partition dm prev cur \<longleftrightarrow>
     set (added dm) = cur - prev \<and>
     set (removed dm) = prev - cur \<and>
     set (changed dm) \<subseteq> prev \<inter> cur \<and>
     set (added dm) \<union> set (removed dm) \<union> set (changed dm) \<union> set (same dm) = prev \<union> cur \<and>
     set (added dm) \<inter> set (removed dm) = {} \<and>
     set (added dm) \<inter> set (changed dm) = {} \<and>
     set (added dm) \<inter> set (same dm) = {} \<and>
     set (removed dm) \<inter> set (changed dm) = {} \<and>
     set (removed dm) \<inter> set (same dm) = {} \<and>
     set (changed dm) \<inter> set (same dm) = {} \<and>
     list_all (\<lambda>f. \<not> is_Directory f) (changed dm)"

section \<open>Example states\<close>

text \<open>
  A source tree \<open>/src\<close> and a repository \<open>/bk/s\<close> with one backup, loose and
  archived. Since the backup, \<open>a\<close> was rewritten, \<open>b\<close> deleted and \<open>c\<close> created.
\<close>

definition ex_tree :: fs where
  "ex_tree =
     [([''src''], DirN), ([''src'', ''a''], RegN ''new'' 5), ([''src'', ''c''], RegN ''c'' 1),
      ([''src'', ''d''], DirN), ([''bk''], DirN), ([''bk'', ''s''], DirN),
      ([''bk'', ''s'', ''20240101-000000000000''], DirN)]"

definition ex_fs :: fs where
  "ex_fs = ex_tree @
     [([''bk'', ''s'', ''20240101-000000000000'', ''data''], DirN),
      ([''bk'', ''s'', ''20240101-000000000000'', ''data'', ''a''], RegN ''old'' 1),
      ([''bk'', ''s'', ''20240101-000000000000'', ''data'', ''b''], RegN ''b'' 1),
      ([''bk'', ''s'', ''20240101-000000000000'', ''data'', ''d''], DirN)]"

definition ex_fs_tar :: fs where
  "ex_fs_tar = ex_tree @
     [([''bk'', ''s'', ''20240101-000000000000'', ''data.tar.gz''],
       ArcN [Member ''data'' MDir, Member ''data/a'' (MReg ''old''),
             Member ''data/b'' (MReg ''b''), Member ''data/d'' MDir])]"

definition ex_source :: "string \<Rightarrow> bool \<Rightarrow> int option \<Rightarrow> source" where
  "ex_source method compress limit =
     Source ''s'' ''Ymd-HMSf'' ''/src'' ''/bk'' method compress limit Ntfs"

definition ex_paths :: "fobj list" where
  "ex_paths = [File ''a'', File ''c'', Directory ''d/'']"

definition ex_diff_map :: diff_map where
  "ex_diff_map =
     \<lparr>added = [File ''c''], removed = [File ''b''], changed = [File ''a''],
      same = [Directory ''d/'']\<rparr>"

definition ex_dt :: "nat \<Rightarrow> datetime" where
  "ex_dt h = \<lparr>year = 2024, month = 1, day = 2, hour = h, minute = 0, second = 0, microsecond = 0\<rparr>"


text \<open>
  An archive whose members do not share one top folder: the catalog lists the file
  \<open>a\<close>, and the lookup of \<open>data/a\<close> for the comparison fails.
\<close>

definition ex_fs_bad_tar :: fs where
  "ex_fs_bad_tar = ex_tree @
     [([''bk'', ''s'', ''20240101-000000000000'', ''data.tar.gz''],
       ArcN [Member ''data'' MDir, Member ''other/a'' (MReg ''old'')])]"

text \<open>A file whose name the target file system forbids, next to an empty destination.\<close>

definition ex_fs_colon :: fs where
  "ex_fs_colon = [([''src''], DirN), ([''src'', ''a:b''], RegN ''x'' 1), ([''dst''], DirN)]"




section \<open>Properties of snapshot keys\<close>

subsection \<open>Rendering of numbers\<close>

lemma length_zpad: "length (zpad w n) = w"
  by (induction w arbitrary: n) auto

lemma digit_char_inj: "a < 10 \<Longrightarrow> b < 10 \<Longrightarrow> digit_char a = digit_char b \<longleftrightarrow> a = b"
proof -
  assume a: "a < 10" and b: "b < 10"
  have "of_char (digit_char a) = (48 + a :: nat)" "of_char (digit_char b) = (48 + b :: nat)"
    using a b by (simp_all add: digit_char_def)
  then show ?thesis by (metis add_left_cancel)
qed

lemma digit_char_less: "a < 10 \<Longrightarrow> b < 10 \<Longrightarrow> digit_char a < digit_char b \<longleftrightarrow> a < b"
  by (simp add: digit_char_def less_char_def)

lemma append_less_same_length:
  fixes u v :: "'a::linorder list"
  shows "length u = length v \<Longrightarrow> u @ x < v @ y \<longleftrightarrow> u < v \<or> (u = v \<and> x < y)"
proof (induction u arbitrary: v)
  case Nil
  then show ?case by simp
next
  case (Cons a u)
  then obtain b v' where v: "v = b # v'" and "length u = length v'"
    by (cases v) auto
  with Cons.IH [of v'] show ?case by auto
qed

lemma zpad_eq: "a < 10 ^ w \<Longrightarrow> b < 10 ^ w \<Longrightarrow> zpad w a = zpad w b \<longleftrightarrow> a = b"
proof (induction w arbitrary: a b)
  case 0
  then show ?case by simp
next
  case (Suc w)
  have da: "a div 10 < 10 ^ w" and db: "b div 10 < 10 ^ w"
    using Suc.prems by (simp_all add: less_mult_imp_div_less mult.commute)
  have "zpad (Suc w) a = zpad (Suc w) b \<longleftrightarrow>
        zpad w (a div 10) = zpad w (b div 10) \<and> digit_char (a mod 10) = digit_char (b mod 10)"
    by (simp add: length_zpad)
  also have "\<dots> \<longleftrightarrow> a div 10 = b div 10 \<and> a mod 10 = b mod 10"
    using Suc.IH [OF da db] by (simp add: digit_char_inj)
  also have "\<dots> \<longleftrightarrow> a = b"
    by (metis div_mult_mod_eq)
  finally show ?case .
qed

lemma zpad_less: "a < 10 ^ w \<Longrightarrow> b < 10 ^ w \<Longrightarrow> zpad w a < zpad w b \<longleftrightarrow> a < b"
proof (induction w arbitrary: a b)
  case 0
  then show ?case by simp
next
  case (Suc w)
  have da: "a div 10 < 10 ^ w" and db: "b div 10 < 10 ^ w"
    using Suc.prems by (simp_all add: less_mult_imp_div_less mult.commute)
  have "zpad (Suc w) a < zpad (Suc w) b \<longleftrightarrow>
        zpad w (a div 10) < zpad w (b div 10)
        \<or> (zpad w (a div 10) = zpad w (b div 10) \<and> digit_char (a mod 10) < digit_char (b mod 10))"
    by (simp add: append_less_same_length length_zpad)
  also have "\<dots> \<longleftrightarrow> a div 10 < b div 10 \<or> (a div 10 = b div 10 \<and> a mod 10 < b mod 10)"
    using Suc.IH [OF da db] zpad_eq [OF da db] by (simp add: digit_char_less)
  also have "\<dots> \<longleftrightarrow> a < b"
  proof -
    define q1 r1 q2 r2 where "q1 = a div 10" and "r1 = a mod 10"
      and "q2 = b div 10" and "r2 = b mod 10"
    have a: "a = 10 * q1 + r1" and b: "b = 10 * q2 + r2"
      by (simp_all add: q1_def r1_def q2_def r2_def)
    have r: "r1 < 10" "r2 < 10"
      by (simp_all add: r1_def r2_def)
    have "10 * q1 + r1 < 10 * q2 + r2 \<longleftrightarrow> q1 < q2 \<or> (q1 = q2 \<and> r1 < r2)"
      using r by linarith
    then show ?thesis
      unfolding q1_def r1_def q2_def r2_def by simp
  qed
  finally show ?case .
qed

lemma strftime_plain:
  "c \<noteq> CHR ''%'' \<Longrightarrow> c \<noteq> CHR 0x00 \<Longrightarrow>
     strftime (c # cs) t = map_option (\<lambda>r. c # r) (strftime cs t)"
  by (cases cs) auto

lemma strftime_percent:
  "strftime (CHR ''%'' # d # cs) t =
     (case directive d t of None \<Rightarrow> None | Some s \<Rightarrow> map_option (\<lambda>r. s @ r) (strftime cs t))"
  by simp

lemma directive_field: "is_field c \<Longrightarrow> directive c t = Some (render_char t c)"
  by (auto simp: directive_def render_char_def is_field_def)

lemma build_key_render:
  "CHR ''%'' \<notin> set fmt \<Longrightarrow> CHR 0x00 \<notin> set fmt \<Longrightarrow>
     build_key fmt t = Some (concat (map (render_char t) fmt))"
  unfolding build_key_def re_sub_fields_def
proof (induction fmt)
  case Nil
  then show ?case by simp
next
  case (Cons c cs)
  then have ih: "strftime (concat (map (\<lambda>c. if is_field c then [CHR ''%'', c] else [c]) cs)) t
     = Some (concat (map (render_char t) cs))" and c: "c \<noteq> CHR ''%''" "c \<noteq> CHR 0x00"
    by auto
  show ?case
  proof (cases "is_field c")
    case True
    then show ?thesis
      using ih directive_field [OF True, of t] by (simp add: strftime_percent del: strftime.simps)
  next
    case False
    then have "render_char t c = [c]"
      by (simp add: render_char_def)
    then show ?thesis
      using ih c False by (simp add: strftime_plain del: strftime.simps)
  qed
qed

lemma render_literal: "literal s \<Longrightarrow> concat (map (render_char t) s) = s"
  by (induction s) (auto simp: literal_def render_char_def)

lemma literal_no_percent: "literal s \<Longrightarrow> CHR ''%'' \<notin> set s"
  by (auto simp: literal_def list_all_iff)

lemma literal_no_nul: "literal s \<Longrightarrow> CHR 0x00 \<notin> set s"
  by (auto simp: literal_def list_all_iff)

lemma build_key_ordered:
  assumes "literal s0" "literal s1" "literal s2" "literal s3" "literal s4" "literal s5"
    "literal s6" "literal s7"
  shows "build_key (ordered_fmt s0 s1 s2 s3 s4 s5 s6 s7) t =
     Some (s0 @ zpad 4 (year t) @ s1 @ zpad 2 (month t) @ s2 @ zpad 2 (day t) @ s3
       @ zpad 2 (hour t) @ s4 @ zpad 2 (minute t) @ s5 @ zpad 2 (second t) @ s6
       @ zpad 6 (microsecond t) @ s7)"
proof -
  have np: "CHR ''%'' \<notin> set (ordered_fmt s0 s1 s2 s3 s4 s5 s6 s7)"
    using assms by (auto simp: ordered_fmt_def dest: literal_no_percent)
  have nn: "CHR 0x00 \<notin> set (ordered_fmt s0 s1 s2 s3 s4 s5 s6 s7)"
    using assms by (auto simp: ordered_fmt_def dest: literal_no_nul)
  have f: "render_char t CHR ''Y'' = zpad 4 (year t)" "render_char t CHR ''m'' = zpad 2 (month t)"
    "render_char t CHR ''d'' = zpad 2 (day t)" "render_char t CHR ''H'' = zpad 2 (hour t)"
    "render_char t CHR ''M'' = zpad 2 (minute t)" "render_char t CHR ''S'' = zpad 2 (second t)"
    "render_char t CHR ''f'' = zpad 6 (microsecond t)"
    by (simp_all add: render_char_def directive_def is_field_def)
  show ?thesis
    unfolding build_key_render [OF np nn]
    by (simp add: ordered_fmt_def render_literal assms f)
qed

lemma append_less_cancel:
  fixes x y :: "'a::linorder list"
  shows "s @ x < s @ y \<longleftrightarrow> x < y"
  by (induction s) auto

lemma field_step:
  fixes x y :: string
  assumes "a < 10 ^ w" "b < 10 ^ w"
  shows "s @ zpad w a @ x < s @ zpad w b @ y \<longleftrightarrow> a < b \<or> (a = b \<and> x < y)"
  using assms by (simp add: append_less_cancel append_less_same_length length_zpad zpad_less zpad_eq)

lemma dt_less_iff:
  "dt_less t1 t2 \<longleftrightarrow>
     year t1 < year t2 \<or> (year t1 = year t2 \<and>
     (month t1 < month t2 \<or> (month t1 = month t2 \<and>
     (day t1 < day t2 \<or> (day t1 = day t2 \<and>
     (hour t1 < hour t2 \<or> (hour t1 = hour t2 \<and>
     (minute t1 < minute t2 \<or> (minute t1 = minute t2 \<and>
     (second t1 < second t2 \<or> (second t1 = second t2 \<and>
      microsecond t1 < microsecond t2)))))))))))"
  by (simp add: dt_less_def dt_fields_def)

text \<open>
  Claim C9, as the code has it: for the key formats that list the seven fields in the
  order year, month, day, hour, minute, second, microsecond, with literal text between
  them (ASCII characters other than NUL, the field letters and the percent sign), and
  for dates with a year of four digits, the key of an earlier time is strictly
  smaller, as a string, than the key of a later time. (The format is free text: the code
  accepts formats that leave fields out or reorder them, and for those the order fails.)
\<close>

theorem build_key_ordered_monotone:
  assumes lit: "literal s0" "literal s1" "literal s2" "literal s3" "literal s4" "literal s5"
    "literal s6" "literal s7"
    and v1: "valid_dt t1" and v2: "valid_dt t2" and y: "1000 \<le> year t1"
    and lt: "dt_less t1 t2"
  shows "\<exists>k1 k2. build_key (ordered_fmt s0 s1 s2 s3 s4 s5 s6 s7) t1 = Some k1
           \<and> build_key (ordered_fmt s0 s1 s2 s3 s4 s5 s6 s7) t2 = Some k2 \<and> k1 < k2"
proof -
  have b: "year t1 < 10 ^ 4" "year t2 < 10 ^ 4" "month t1 < 10 ^ 2" "month t2 < 10 ^ 2"
    "day t1 < 10 ^ 2" "day t2 < 10 ^ 2" "hour t1 < 10 ^ 2" "hour t2 < 10 ^ 2"
    "minute t1 < 10 ^ 2" "minute t2 < 10 ^ 2" "second t1 < 10 ^ 2" "second t2 < 10 ^ 2"
    "microsecond t1 < 10 ^ 6" "microsecond t2 < 10 ^ 6"
    using v1 v2 by (simp_all add: valid_dt_def)
  have "s0 @ zpad 4 (year t1) @ s1 @ zpad 2 (month t1) @ s2 @ zpad 2 (day t1) @ s3
       @ zpad 2 (hour t1) @ s4 @ zpad 2 (minute t1) @ s5 @ zpad 2 (second t1) @ s6
       @ zpad 6 (microsecond t1) @ s7
     < s0 @ zpad 4 (year t2) @ s1 @ zpad 2 (month t2) @ s2 @ zpad 2 (day t2) @ s3
       @ zpad 2 (hour t2) @ s4 @ zpad 2 (minute t2) @ s5 @ zpad 2 (second t2) @ s6
       @ zpad 6 (microsecond t2) @ s7"
    using lt unfolding dt_less_iff
    by (simp only: field_step [OF b(1,2)] field_step [OF b(3,4)] field_step [OF b(5,6)]
        field_step [OF b(7,8)] field_step [OF b(9,10)] field_step [OF b(11,12)]
        field_step [OF b(13,14)]) (simp add: append_less_cancel)
  then show ?thesis
    by (simp add: build_key_ordered lit)
qed

theorem build_key_ordered_monotone_witness:
  "literal [] \<and> literal ''-'' \<and>
   valid_dt \<lparr>year = 2024, month = 1, day = 2, hour = 3, minute = 4, second = 5, microsecond = 6\<rparr> \<and>
   valid_dt \<lparr>year = 2024, month = 1, day = 2, hour = 3, minute = 4, second = 5, microsecond = 7\<rparr> \<and>
   dt_less \<lparr>year = 2024, month = 1, day = 2, hour = 3, minute = 4, second = 5, microsecond = 6\<rparr>
     \<lparr>year = 2024, month = 1, day = 2, hour = 3, minute = 4, second = 5, microsecond = 7\<rparr> \<and>
   (\<exists>k1 k2. build_key (ordered_fmt [] [] [] ''-'' [] [] [] [])
        \<lparr>year = 2024, month = 1, day = 2, hour = 3, minute = 4, second = 5, microsecond = 6\<rparr> = Some k1
      \<and> build_key (ordered_fmt [] [] [] ''-'' [] [] [] [])
        \<lparr>year = 2024, month = 1, day = 2, hour = 3, minute = 4, second = 5, microsecond = 7\<rparr> = Some k2
      \<and> k1 < k2)"
proof -
  have l: "literal []" "literal ''-''"
    by (simp_all add: literal_def is_field_def)
  have v: "valid_dt \<lparr>year = 2024, month = 1, day = 2, hour = 3, minute = 4, second = 5, microsecond = 6\<rparr>"
    "valid_dt \<lparr>year = 2024, month = 1, day = 2, hour = 3, minute = 4, second = 5, microsecond = 7\<rparr>"
    by (simp_all add: valid_dt_def)
  have y: "1000 \<le> year \<lparr>year = 2024, month = 1, day = 2, hour = 3, minute = 4, second = 5, microsecond = 6\<rparr>"
    by simp
  have d: "dt_less \<lparr>year = 2024, month = 1, day = 2, hour = 3, minute = 4, second = 5, microsecond = 6\<rparr>
     \<lparr>year = 2024, month = 1, day = 2, hour = 3, minute = 4, second = 5, microsecond = 7\<rparr>"
    by (simp add: dt_less_def dt_fields_def)
  show ?thesis
    using build_key_ordered_monotone [OF l(1) l(1) l(1) l(2) l(1) l(1) l(1) l(1) v y d] l v d
    by blast
qed

text \<open>
  Claim C9 as stated fails: the format \<open>Ymd\<close> gives two runs of the same day the same
  key, so the key of the earlier run is not strictly smaller.
\<close>

theorem build_key_same_day_counterexample:
  "dt_less \<lparr>year = 2024, month = 1, day = 2, hour = 10, minute = 0, second = 0, microsecond = 0\<rparr>
     \<lparr>year = 2024, month = 1, day = 2, hour = 11, minute = 0, second = 0, microsecond = 0\<rparr>
   \<and> build_key ''Ymd''
        \<lparr>year = 2024, month = 1, day = 2, hour = 10, minute = 0, second = 0, microsecond = 0\<rparr>
      = Some ''20240102''
   \<and> build_key ''Ymd''
        \<lparr>year = 2024, month = 1, day = 2, hour = 11, minute = 0, second = 0, microsecond = 0\<rparr>
      = Some ''20240102''
   \<and> \<not> (''20240102'' < ''20240102'')"
  by code_simp

text \<open>
  A format with a NUL character is rendered up to that character: two runs of the same
  day get the same key although the fields of the time follow it.
\<close>

lemma build_key_nul_example:
  "build_key [CHR ''Y'', CHR ''m'', CHR ''d'', CHR 0x00, CHR ''-'', CHR ''H'', CHR ''M'',
      CHR ''S'', CHR ''f''] (ex_dt 10) = Some ''20240102''
   \<and> build_key [CHR ''Y'', CHR ''m'', CHR ''d'', CHR 0x00, CHR ''-'', CHR ''H'', CHR ''M'',
      CHR ''S'', CHR ''f''] (ex_dt 11) = Some ''20240102''"
  by code_simp

section \<open>Properties of paths\<close>

lemma split_sep_nonempty: "split_sep s \<noteq> []"
  by (induction s) (auto split: list.splits)

lemma split_sep_Cons:
  "split_sep (c # cs) =
     (if c = CHR ''/'' then [] # split_sep cs else (c # hd (split_sep cs)) # tl (split_sep cs))"
  using split_sep_nonempty [of cs] by (cases "split_sep cs") auto

lemma split_sep_append: "split_sep (a @ CHR ''/'' # b) = split_sep a @ split_sep b"
proof (induction a)
  case Nil
  then show ?case by simp
next
  case (Cons c a)
  then show ?case
    using split_sep_nonempty [of a] split_sep_nonempty [of b]
    by (cases "split_sep a") (auto split: list.splits)
qed

lemma split_sep_no_sep: "CHR ''/'' \<notin> set s \<Longrightarrow> split_sep s = [s]"
  by (induction s) auto

lemma split_sep_pieces: "w \<in> set (split_sep s) \<Longrightarrow> CHR ''/'' \<notin> set w"
proof (induction s arbitrary: w)
  case Nil
  then show ?case by simp
next
  case (Cons c s)
  then show ?case
    using split_sep_nonempty [of s]
    by (cases "split_sep s") (auto split: if_splits)
qed

lemma comps_Nil [simp]: "comps [] = []"
  by (simp add: comps_def)

lemma comps_append_sep: "comps (a @ CHR ''/'' # b) = comps a @ comps b"
  by (simp add: comps_def split_sep_append)

lemma comps_name: "valid_name c \<Longrightarrow> comps c = [c]"
  by (simp add: comps_def valid_name_def split_sep_no_sep)

lemma comps_valid: "c \<in> set (comps p) \<Longrightarrow> valid_name c"
  by (auto simp: comps_def valid_name_def dest: split_sep_pieces)

lemma comps_trailing: "comps (a @ ''/'') = comps a"
  using comps_append_sep [of a "[]"] by simp

lemma comps_join:
  assumes "b = [] \<or> hd b \<noteq> CHR ''/''"
  shows "comps (join a b) = comps a @ comps b"
proof (cases "a = [] \<or> last a = CHR ''/''")
  case True
  show ?thesis
  proof (cases "a = []")
    case True
    with assms show ?thesis by (auto simp: join_def)
  next
    case False
    with True obtain a' where a: "a = a' @ ''/''"
      by (metis append_butlast_last_id)
    have "join a b = a' @ CHR ''/'' # b"
      using assms a by (auto simp: join_def)
    then show ?thesis
      by (simp add: comps_append_sep a comps_trailing)
  qed
next
  case False
  then have "join a b = a @ CHR ''/'' # b"
    using assms by (auto simp: join_def)
  then show ?thesis
    by (simp add: comps_append_sep)
qed

lemma comps_join_name: "valid_name c \<Longrightarrow> comps (join a c) = comps a @ [c]"
  by (cases c) (auto simp: comps_join comps_name valid_name_def)

lemma join_not_empty: "b \<noteq> [] \<Longrightarrow> join a b \<noteq> []"
  by (auto simp: join_def)

lemma trailing_join_name: "valid_name c \<Longrightarrow> \<not> trailing (join a c)"
  by (cases c rule: rev_cases) (auto simp: join_def trailing_def valid_name_def)

section \<open>The diff map\<close>

lemma filter_changed_files_subset:
  "filter_changed_files fs files path1 path2 = Inr r \<Longrightarrow>
     set r \<subseteq> set files \<and> list_all (\<lambda>f. \<not> is_Directory f) r"
proof (induction files arbitrary: r)
  case Nil
  then show ?case by simp
next
  case (Cons f files)
  show ?case
  proof (cases f)
    case (File p)
    with Cons.prems obtain eq r' where r': "filter_changed_files fs files path1 path2 = Inr r'"
      and r: "r = (if \<not> eq then File p # r' else r')"
      by (auto split: sum.splits)
    from Cons.IH [OF r'] show ?thesis
      unfolding r File by auto
  next
    case (Symlink p)
    with Cons.prems obtain ne r' where r': "filter_changed_files fs files path1 path2 = Inr r'"
      and r: "r = (if ne then Symlink p # r' else r')"
      by (auto split: sum.splits)
    from Cons.IH [OF r'] show ?thesis
      unfolding r Symlink by auto
  next
    case (Directory p)
    with Cons.prems have "filter_changed_files fs files path1 path2 = Inr r"
      by simp
    from Cons.IH [OF this] show ?thesis
      unfolding Directory by auto
  qed
qed

lemma filter_changed_in_members_subset:
  "filter_changed_in_members fs ms root files dir_path = Inr r \<Longrightarrow>
     set r \<subseteq> set files \<and> list_all (\<lambda>f. \<not> is_Directory f) r"
proof (induction files arbitrary: r)
  case Nil
  then show ?case by simp
next
  case (Cons f files)
  show ?case
  proof (cases f)
    case (File p)
    with Cons.prems obtain ne r' where r': "filter_changed_in_members fs ms root files dir_path = Inr r'"
      and r: "r = (if ne then File p # r' else r')"
      by (auto split: sum.splits)
    from Cons.IH [OF r'] show ?thesis
      unfolding r File by auto
  next
    case (Symlink p)
    with Cons.prems obtain ne r' where r': "filter_changed_in_members fs ms root files dir_path = Inr r'"
      and r: "r = (if ne then Symlink p # r' else r')"
      by (auto split: sum.splits)
    from Cons.IH [OF r'] show ?thesis
      unfolding r Symlink by auto
  next
    case (Directory p)
    with Cons.prems have "filter_changed_in_members fs ms root files dir_path = Inr r"
      by simp
    from Cons.IH [OF this] show ?thesis
      unfolding Directory by auto
  qed
qed

lemma filter_changed_files_in_tar_subset:
  "filter_changed_files_in_tar fs files dir_path tar_path = Inr r \<Longrightarrow>
     set r \<subseteq> set files \<and> list_all (\<lambda>f. \<not> is_Directory f) r"
  unfolding filter_changed_files_in_tar_def
  by (auto split: sum.splits list.splits dest: filter_changed_in_members_subset)

lemma diff_partition_parts:
  assumes "set chg \<subseteq> set (filter (\<lambda>f. f \<in> set paths) last_paths)"
    and "list_all (\<lambda>f. \<not> is_Directory f) chg"
  shows "diff_partition
     \<lparr>added = filter (\<lambda>f. f \<notin> set last_paths) paths,
      removed = filter (\<lambda>f. f \<notin> set paths) last_paths,
      changed = chg,
      same = filter (\<lambda>f. f \<notin> set chg) (filter (\<lambda>f. f \<in> set paths) last_paths)\<rparr>
     (set last_paths) (set paths)"
  using assms unfolding diff_partition_def by (simp add: list_all_iff) blast

text \<open>
  Claim C3: for the catalog of the previous backup and the catalog of the source tree,
  the diff map that \<open>_create_diff_map\<close> (and its twin for an archived backup) computes
  has four pairwise disjoint parts whose union is the union of the two catalogs; added is
  current minus previous, removed is previous minus current, changed lies within both,
  and no directory is among the changed.
\<close>

theorem create_diff_map_partition:
  "(create_diff_map fs s last_data_path paths = Inr dm \<longrightarrow>
      diff_partition dm (set (collect_paths fs last_data_path)) (set paths)) \<and>
   (create_diff_map_in_tar fs s last_data_path paths = Inr dm \<longrightarrow>
      (\<exists>last_paths. collect_paths_in_tar fs (last_data_path @ ''.tar.gz'') = Inr last_paths \<and>
         diff_partition dm (set last_paths) (set paths)))"
proof (intro conjI impI)
  assume a: "create_diff_map fs s last_data_path paths = Inr dm"
  then obtain chg where c: "filter_changed_files fs
       (filter (\<lambda>f. f \<in> set paths) (collect_paths fs last_data_path)) (s_source s) last_data_path
       = Inr chg"
    and dm: "dm = \<lparr>added = filter (\<lambda>f. f \<notin> set (collect_paths fs last_data_path)) paths,
      removed = filter (\<lambda>f. f \<notin> set paths) (collect_paths fs last_data_path),
      changed = chg,
      same = filter (\<lambda>f. f \<notin> set chg)
               (filter (\<lambda>f. f \<in> set paths) (collect_paths fs last_data_path))\<rparr>"
    by (auto simp: create_diff_map_def Let_def split: sum.splits)
  show "diff_partition dm (set (collect_paths fs last_data_path)) (set paths)"
    unfolding dm using filter_changed_files_subset [OF c] by (intro diff_partition_parts) auto
next
  assume a: "create_diff_map_in_tar fs s last_data_path paths = Inr dm"
  then obtain last_paths chg where l: "collect_paths_in_tar fs (last_data_path @ ''.tar.gz'') = Inr last_paths"
    and c: "filter_changed_files_in_tar fs (filter (\<lambda>f. f \<in> set paths) last_paths) (s_source s)
       (last_data_path @ ''.tar.gz'') = Inr chg"
    and dm: "dm = \<lparr>added = filter (\<lambda>f. f \<notin> set last_paths) paths,
      removed = filter (\<lambda>f. f \<notin> set paths) last_paths,
      changed = chg,
      same = filter (\<lambda>f. f \<notin> set chg) (filter (\<lambda>f. f \<in> set paths) last_paths)\<rparr>"
    by (auto simp: create_diff_map_in_tar_def Let_def split: sum.splits)
  have "diff_partition dm (set last_paths) (set paths)"
    unfolding dm using filter_changed_files_in_tar_subset [OF c] by (intro diff_partition_parts) auto
  with l show "\<exists>last_paths. collect_paths_in_tar fs (last_data_path @ ''.tar.gz'') = Inr last_paths \<and>
         diff_partition dm (set last_paths) (set paths)"
    by blast
qed



theorem create_diff_map_partition_witness:
  "(create_diff_map ex_fs (ex_source ''full'' False None) ''/bk/s/20240101-000000000000/data'' ex_paths = Inr ex_diff_map
     \<and> diff_partition ex_diff_map (set (collect_paths ex_fs ''/bk/s/20240101-000000000000/data'')) (set ex_paths)) \<and>
   (create_diff_map_in_tar ex_fs_tar (ex_source ''full'' True None) ''/bk/s/20240101-000000000000/data'' ex_paths
       = Inr ex_diff_map
     \<and> (\<exists>last_paths. collect_paths_in_tar ex_fs_tar (''/bk/s/20240101-000000000000/data'' @ ''.tar.gz'') = Inr last_paths \<and>
         diff_partition ex_diff_map (set last_paths) (set ex_paths)))"
proof -
  have 1: "create_diff_map ex_fs (ex_source ''full'' False None) ''/bk/s/20240101-000000000000/data'' ex_paths = Inr ex_diff_map"
    by code_simp
  have 2: "create_diff_map_in_tar ex_fs_tar (ex_source ''full'' True None) ''/bk/s/20240101-000000000000/data'' ex_paths
       = Inr ex_diff_map"
    by code_simp
  show ?thesis
    using 1 2
      create_diff_map_partition [of ex_fs "ex_source ''full'' False None" "''/bk/s/20240101-000000000000/data''" ex_paths ex_diff_map]
      create_diff_map_partition [of ex_fs_tar "ex_source ''full'' True None" "''/bk/s/20240101-000000000000/data''" ex_paths ex_diff_map]
    by blast
qed

subsection \<open>Comparison of contents\<close>

lemma compare_file_objects_eq:
  "0 < chunk_size \<Longrightarrow> compare_file_objects fileobj1 fileobj2 chunk_size \<longleftrightarrow> fileobj1 = fileobj2"
proof (induction fileobj1 fileobj2 chunk_size rule: compare_file_objects.induct)
  case (1 f1 f2 n)
  show ?case
  proof (cases "take n f1 = take n f2")
    case False
    then show ?thesis
      by (subst compare_file_objects.simps) auto
  next
    case eq: True
    show ?thesis
    proof (cases "take n f1 = []")
      case True
      with eq 1(2) have "f1 = []" "f2 = []"
        by (auto simp: take_eq_Nil)
      then show ?thesis
        by (subst compare_file_objects.simps) simp
    next
      case False
      with eq have "compare_file_objects f1 f2 n = compare_file_objects (drop n f1) (drop n f2) n"
        by (subst compare_file_objects.simps) simp
      also have "\<dots> \<longleftrightarrow> drop n f1 = drop n f2"
        using 1(1) eq False 1(2) by simp
      also have "\<dots> \<longleftrightarrow> f1 = f2"
        using eq by (metis append_take_drop_id)
      finally show ?thesis .
    qed
  qed
qed

text \<open>
  Claim C2 at an input where it fails: two regular files of the same length and the same
  modification time, with different bytes. The comparison of the plain backend answers
  from the signatures, so the file is not classified as changed.
\<close>

theorem filter_changed_files_same_signature:
  "filter_changed_files
     [([''src''], DirN), ([''src'', ''a''], RegN ''new'' 1),
      ([''old''], DirN), ([''old'', ''a''], RegN ''old'' 1)]
     [File ''a''] ''/src'' ''/old'' = Inr []
   \<and> ''new'' \<noteq> ''old''"
  by code_simp

text \<open>
  The archive backend at the same two files: \<open>_compare_file_objects\<close> reads the bytes
  (\<open>compare_file_objects_eq\<close>) and the file is classified as changed.
\<close>

lemma filter_changed_in_members_exact:
  "filter_changed_in_members
     [([''src''], DirN), ([''src'', ''a''], RegN ''new'' 1)]
     [Member ''data'' MDir, Member ''data/a'' (MReg ''old'')] ''data''
     [File ''a''] ''/src'' = Inr [File ''a'']"
  by code_simp

subsection \<open>Copying and the allowed paths\<close>

text \<open>
  Claim C4 at an input where it fails: the file \<open>a:b\<close> is copied to an NTFS target. The
  destination path \<open>/dst/a:b\<close> is not allowed, but \<open>copy_files\<close> asks the predicate about
  the destination root \<open>/dst\<close> and writes the file; \<open>utils.copy_file\<close>, asked about the
  same destination, skips it.
\<close>

theorem copy_files_writes_disallowed_path:
  "\<not> is_path_allowed Ntfs (join ''/dst'' ''a:b'')
   \<and> copy_files [File ''a:b''] ''/src'' ''/dst'' (Some Ntfs) ex_fs_colon
       = (Inr (), ([''dst'', ''a:b''], RegN ''x'' 1) # ex_fs_colon)
   \<and> copy_file (join ''/src'' ''a:b'') (join ''/dst'' ''a:b'') (Some Ntfs) ex_fs_colon
       = (Inr (), ex_fs_colon)"
  by code_simp

section \<open>The run of \<open>make\<close>\<close>



text \<open>
  Claim C6: when the computation of the diff raises, \<open>make\<close> ends with an exception and
  the file system is as it was: the snapshot directory is made and data is copied only
  after the diff map has been built.
\<close>

theorem make_diff_error_writes_nothing:
  assumes "build_diff_map fs s = Inl e"
  shows "(\<exists>e'. make fuel cls s dt fs = Some (Inl e', fs)) \<and>
         (build_key (s_fmt s) dt \<noteq> None \<longrightarrow> make fuel cls s dt fs = Some (Inl e, fs))"
  using assms by (auto simp: make_def split: option.splits)

theorem make_diff_error_writes_nothing_witness:
  "build_diff_map ex_fs_bad_tar (ex_source ''full'' True None) = Inl KeyError
   \<and> make 1 (PlainCopyMixin, FullExtraMixin) (ex_source ''full'' True None) (ex_dt 1) ex_fs_bad_tar
       = Some (Inl KeyError, ex_fs_bad_tar)"
proof -
  have d: "build_diff_map ex_fs_bad_tar (ex_source ''full'' True None) = Inl KeyError"
    by code_simp
  have k: "build_key (s_fmt (ex_source ''full'' True None)) (ex_dt 1) \<noteq> None"
    by code_simp
  show ?thesis
    using d k make_diff_error_writes_nothing [OF d, of 1 "(PlainCopyMixin, FullExtraMixin)" "ex_dt 1"]
    by simp
qed

text \<open>A failing comparison anywhere in the similar set makes the whole filter fail.\<close>

lemma filter_changed_files_fails:
  "File p \<in> set files \<Longrightarrow> filecmp_cmp fs (join path1 p) (join path2 p) = Inl e \<Longrightarrow>
     \<exists>e'. filter_changed_files fs files path1 path2 = Inl e'"
proof (induction files)
  case Nil
  then show ?case by simp
next
  case (Cons f files)
  then show ?case
    by (cases f) (auto split: sum.splits)
qed

text \<open>Two runs in a row on the example: the second one leaves the state of the first.\<close>

lemma make_twice_example:
  "(case make 3 (DiffCopyMixin, FullExtraMixin) (ex_source ''diff'' False None) (ex_dt 1) ex_fs of
      Some (Inr u, fs1) \<Rightarrow>
        fs1 \<noteq> ex_fs \<and>
        make 3 (DiffCopyMixin, FullExtraMixin) (ex_source ''diff'' False None) (ex_dt 2) fs1
          = Some (Inr (), fs1)
    | _ \<Rightarrow> False)"
  by code_simp


section \<open>Properties of the file system\<close>

subsection \<open>Looking up after a change\<close>

lemma map_of_set_node: "map_of (set_node cs n fs) k = (if k = cs then Some n else map_of fs k)"
  by (induction fs) (auto simp: set_node_def)

lemma map_of_del_node: "map_of (del_node cs fs) k = (if k = cs then None else map_of fs k)"
  by (induction fs) (auto simp: del_node_def)

lemma map_of_del_tree: "map_of (del_tree cs fs) k = (if prefix cs k then None else map_of fs k)"
  by (induction fs) (auto simp: del_tree_def)

lemma keys_set_node: "fst ` set (set_node cs n fs) = insert cs (fst ` set fs)"
  by (auto simp: set_node_def image_iff)

lemma keys_del_node: "fst ` set (del_node cs fs) = fst ` set fs - {cs}"
  by (auto simp: del_node_def image_iff)

lemma keys_del_tree: "fst ` set (del_tree cs fs) = {k \<in> fst ` set fs. \<not> prefix cs k}"
  by (auto simp: del_tree_def image_iff)

lemma raw_set_node:
  "raw (set_node cs n fs) k = (if k = [] then Some DirN else if k = cs then Some n else raw fs k)"
  by (simp add: raw_def map_of_set_node)

lemma raw_del_node:
  "raw (del_node cs fs) k = (if k = [] then Some DirN else if k = cs then None else raw fs k)"
  by (simp add: raw_def map_of_del_node)

lemma raw_del_tree:
  "raw (del_tree cs fs) k = (if k = [] then Some DirN else if prefix cs k then None else raw fs k)"
  by (simp add: raw_def map_of_del_tree)

lemma map_of_rekey:
  assumes "inj_on f (fst ` set xs)"
  shows "map_of (map (\<lambda>kv. (f (fst kv), snd kv)) xs) k' =
     (if k' \<in> f ` fst ` set xs then map_of xs (the_inv_into (fst ` set xs) f k') else None)"
  using assms
proof (induction xs)
  case Nil
  then show ?case by simp
next
  case (Cons x xs)
  obtain k v where x: "x = (k, v)" by (cases x)
  have inj: "inj_on f (fst ` set xs)" and inj': "inj_on f (insert k (fst ` set xs))"
    using Cons.prems by (auto simp: x inj_on_def)
  show ?case
  proof (cases "k' = f k")
    case True
    have "the_inv_into (insert k (fst ` set xs)) f (f k) = k"
      using inj' by (simp add: the_inv_into_f_f)
    then show ?thesis
      using True by (simp add: x)
  next
    case False
    show ?thesis
    proof (cases "k' \<in> f ` fst ` set xs")
      case True
      then obtain k0 where k0: "k0 \<in> fst ` set xs" "k' = f k0" by auto
      have a: "the_inv_into (insert k (fst ` set xs)) f k' = k0"
        using inj' k0 by (simp add: the_inv_into_f_f)
      have b: "the_inv_into (fst ` set xs) f k' = k0"
        using inj k0 by (simp add: the_inv_into_f_f)
      have "k0 \<noteq> k" using False k0 by auto
      then show ?thesis
        using Cons.IH [OF inj] False True a b by (simp add: x)
    next
      case f: False
      then show ?thesis
        using Cons.IH [OF inj] False by (simp add: x)
    qed
  qed
qed

lemma move_tree_rekey:
  "move_tree old new fs = map (\<lambda>kv. (rekey old new (fst kv), snd kv)) (del_tree new fs)"
  by (simp add: move_tree_def)

lemma rekey_inj:
  assumes "\<not> prefix new old"
  shows "inj_on (rekey old new) {k. \<not> prefix new k}"
proof (rule inj_onI)
  fix x y assume x: "x \<in> {k. \<not> prefix new k}" and y: "y \<in> {k. \<not> prefix new k}"
    and e: "rekey old new x = rekey old new y"
  show "x = y"
  proof (cases "prefix old x"; cases "prefix old y")
    assume "prefix old x" "prefix old y"
    then show ?thesis
      using e by (auto simp: rekey_def prefix_def)
  next
    assume "prefix old x" "\<not> prefix old y"
    then show ?thesis
      using e y by (auto simp: rekey_def)
  next
    assume "\<not> prefix old x" "prefix old y"
    then show ?thesis
      using e x by (auto simp: rekey_def)
  next
    assume "\<not> prefix old x" "\<not> prefix old y"
    then show ?thesis
      using e by (auto simp: rekey_def)
  qed
qed

lemma map_of_move_tree:
  assumes "\<not> prefix new old" "\<not> prefix old new"
  shows "map_of (move_tree old new fs) k =
     (if prefix new k then map_of fs (old @ drop (length new) k)
      else if prefix old k then None else map_of fs k)"
proof -
  let ?K = "fst ` set (del_tree new fs)"
  have sub: "?K \<subseteq> {k. \<not> prefix new k}"
    by (auto simp: keys_del_tree)
  have inj: "inj_on (rekey old new) ?K"
    using rekey_inj [OF assms(1)] sub by (rule inj_on_subset)
  have m: "map_of (move_tree old new fs) k =
     (if k \<in> rekey old new ` ?K then map_of (del_tree new fs) (the_inv_into ?K (rekey old new) k)
      else None)"
    unfolding move_tree_rekey by (rule map_of_rekey [OF inj])
  show ?thesis
  proof (cases "prefix new k")
    case True
    then obtain r where k: "k = new @ r" by (auto simp: prefix_def)
    have no: "\<not> prefix new (old @ r)"
      using assms by (metis prefix_append prefix_same_cases prefix_order.dual_order.refl prefixI append_eq_append_conv2 prefix_def)
    show ?thesis
    proof (cases "old @ r \<in> fst ` set fs")
      case in_fs: True
      then have inK: "old @ r \<in> ?K"
        using no by (simp add: keys_del_tree)
      have rk: "rekey old new (old @ r) = k"
        by (simp add: rekey_def k)
      have "the_inv_into ?K (rekey old new) k = old @ r"
        using inj inK rk by (metis the_inv_into_f_f)
      moreover have "k \<in> rekey old new ` ?K"
        using inK rk by (metis imageI)
      ultimately show ?thesis
        using m True no by (simp add: map_of_del_tree k)
    next
      case out: False
      then have none: "map_of fs (old @ r) = None"
        by (simp add: map_of_eq_None_iff)
      have "k \<notin> rekey old new ` ?K"
      proof
        assume "k \<in> rekey old new ` ?K"
        then obtain k0 where k0: "k0 \<in> ?K" "k = rekey old new k0" by auto
        then have np: "\<not> prefix new k0" using sub by auto
        show False
        proof (cases "prefix old k0")
          case True
          then have "k0 = old @ r"
            using k0 k by (auto simp: rekey_def prefix_def)
          with k0 out show False by (auto simp: keys_del_tree)
        next
          case False
          with k0 have "k = k0" by (simp add: rekey_def)
          with np \<open>prefix new k\<close> show False by simp
        qed
      qed
      then show ?thesis
        using m True none by (simp add: k)
    qed
  next
    case False
    show ?thesis
    proof (cases "prefix old k")
      case True
      have "k \<notin> rekey old new ` ?K"
      proof
        assume "k \<in> rekey old new ` ?K"
        then obtain k0 where k0: "k0 \<in> ?K" "k = rekey old new k0" by auto
        show False
        proof (cases "prefix old k0")
          case True
          then show False using k0 False by (auto simp: rekey_def)
        next
          case f: False
          then show False using k0 True by (auto simp: rekey_def)
        qed
      qed
      then show ?thesis using m False True by simp
    next
      case f: False
      show ?thesis
      proof (cases "k \<in> fst ` set fs")
        case True
        then have inK: "k \<in> ?K" using False by (simp add: keys_del_tree)
        have rk: "rekey old new k = k" using f by (simp add: rekey_def)
        have "the_inv_into ?K (rekey old new) k = k"
          using inj inK rk by (metis the_inv_into_f_f)
        moreover have "k \<in> rekey old new ` ?K"
          using inK rk by (metis imageI)
        ultimately show ?thesis
          using m False f by (simp add: map_of_del_tree)
      next
        case out: False
        then have none: "map_of fs k = None"
          by (simp add: map_of_eq_None_iff)
        have "k \<notin> rekey old new ` ?K"
        proof
          assume "k \<in> rekey old new ` ?K"
          then obtain k0 where k0: "k0 \<in> ?K" "k = rekey old new k0" by auto
          show False
          proof (cases "prefix old k0")
            case True
            then show False using k0 False by (auto simp: rekey_def)
          next
            case ff: False
            then show False using k0 out by (auto simp: rekey_def keys_del_tree)
          qed
        qed
        then show ?thesis using m False f none by simp
      qed
    qed
  qed
qed

subsection \<open>The tables that are file systems stay so\<close>

lemma wf_fs_iff:
  "wf_fs fs \<longleftrightarrow> (\<forall>k \<in> fst ` set fs. k \<noteq> [] \<and> list_all valid_name k \<and> raw fs (butlast k) = Some DirN)"
  by (auto simp: wf_fs_def list_all_iff)

lemma raw_Some_key: "raw fs k = Some n \<Longrightarrow> k \<noteq> [] \<Longrightarrow> k \<in> fst ` set fs"
  by (auto simp: raw_def dest: map_of_SomeD intro: rev_image_eqI)

lemma raw_None_key: "k \<noteq> [] \<Longrightarrow> raw fs k = None \<longleftrightarrow> k \<notin> fst ` set fs"
  by (simp add: raw_def map_of_eq_None_iff)

lemma wf_fs_ancestor:
  assumes "wf_fs fs" "k \<in> fst ` set fs" "strict_prefix p k"
  shows "raw fs p = Some DirN"
  using assms(2,3)
proof (induction "length k - length p" arbitrary: k rule: less_induct)
  case less
  from less.prems assms(1) have k: "k \<noteq> []" "raw fs (butlast k) = Some DirN"
    by (auto simp: wf_fs_iff)
  show ?case
  proof (cases "p = butlast k")
    case True
    with k show ?thesis by simp
  next
    case False
    from less.prems(2) obtain r where r: "k = p @ r" "r \<noteq> []"
      by (auto simp: strict_prefix_def prefix_def)
    with False have sp: "strict_prefix p (butlast k)"
      by (cases r rule: rev_cases) (auto simp: butlast_append strict_prefix_def)
    then have "butlast k \<noteq> []" by auto
    with k have "butlast k \<in> fst ` set fs"
      by (auto dest: raw_Some_key)
    moreover have "length (butlast k) - length p < length k - length p"
      using sp k by (cases k rule: rev_cases) (auto dest!: prefix_length_less)
    ultimately show ?thesis
      using less.hyps sp by blast
  qed
qed

lemma wf_fs_below_dir:
  assumes "wf_fs fs" "k \<in> fst ` set fs" "strict_prefix p k" "raw fs p \<noteq> Some DirN"
  shows False
  using wf_fs_ancestor [OF assms(1-3)] assms(4) by simp

lemma wf_set_node:
  assumes "wf_fs fs" "cs \<noteq> []" "list_all valid_name cs" "raw fs (butlast cs) = Some DirN"
    and "n = DirN \<or> raw fs cs \<noteq> Some DirN"
  shows "wf_fs (set_node cs n fs)"
  unfolding wf_fs_iff
proof (intro ballI conjI)
  fix k assume k: "k \<in> fst ` set (set_node cs n fs)"
  then consider "k = cs" | "k \<in> fst ` set fs" "k \<noteq> cs"
    by (auto simp: keys_set_node)
  then have "k \<noteq> [] \<and> list_all valid_name k \<and> raw (set_node cs n fs) (butlast k) = Some DirN"
  proof cases
    case 1
    then show ?thesis
      using assms by (cases "butlast cs = cs") (auto simp: raw_set_node)
  next
    case 2
    with assms(1) have w: "k \<noteq> []" "list_all valid_name k" "raw fs (butlast k) = Some DirN"
      by (auto simp: wf_fs_iff)
    show ?thesis
    proof (cases "butlast k = cs")
      case True
      with w have "raw fs cs = Some DirN" by simp
      with assms(5) have "n = DirN" by simp
      with w True show ?thesis by (simp add: raw_set_node)
    next
      case False
      with w show ?thesis by (simp add: raw_set_node)
    qed
  qed
  then show "k \<noteq> []" "list_all valid_name k" "raw (set_node cs n fs) (butlast k) = Some DirN"
    by simp_all
qed

lemma wf_del_tree: "wf_fs fs \<Longrightarrow> wf_fs (del_tree cs fs)"
  unfolding wf_fs_iff
proof (intro ballI)
  fix k assume w: "\<forall>k\<in>fst ` set fs. k \<noteq> [] \<and> list_all valid_name k \<and> raw fs (butlast k) = Some DirN"
    and k: "k \<in> fst ` set (del_tree cs fs)"
  then have kk: "k \<in> fst ` set fs" "\<not> prefix cs k"
    by (auto simp: keys_del_tree)
  with w have a: "k \<noteq> []" "list_all valid_name k" "raw fs (butlast k) = Some DirN" by auto
  have "\<not> prefix cs (butlast k)"
    using kk(2) by (metis prefix_order.trans prefixeq_butlast)
  with a show "k \<noteq> [] \<and> list_all valid_name k \<and> raw (del_tree cs fs) (butlast k) = Some DirN"
    by (simp add: raw_del_tree)
qed

lemma wf_del_node:
  assumes "wf_fs fs" "raw fs cs \<noteq> Some DirN \<or> children fs cs = []"
  shows "wf_fs (del_node cs fs)"
  unfolding wf_fs_iff
proof (intro ballI)
  fix k assume k: "k \<in> fst ` set (del_node cs fs)"
  then have kk: "k \<in> fst ` set fs" "k \<noteq> cs"
    by (auto simp: keys_del_node)
  with assms(1) have a: "k \<noteq> []" "list_all valid_name k" "raw fs (butlast k) = Some DirN"
    by (auto simp: wf_fs_iff)
  have "butlast k \<noteq> cs"
  proof
    assume b: "butlast k = cs"
    with a have "raw fs cs = Some DirN" by simp
    with assms(2) have "children fs cs = []" by simp
    moreover have "last k \<in> set (children fs cs)"
      using kk a b by (auto simp: children_def intro!: rev_image_eqI [of k])
    ultimately show False by simp
  qed
  with a show "k \<noteq> [] \<and> list_all valid_name k \<and> raw (del_node cs fs) (butlast k) = Some DirN"
    by (simp add: raw_del_node)
qed

lemma rekey_prefix_new:
  assumes "prefix old k" shows "rekey old new k = new @ drop (length old) k"
  using assms by (simp add: rekey_def)

lemma wf_move_tree:
  assumes wf: "wf_fs fs" and old: "old \<noteq> []" and new: "new \<noteq> []"
    and nvalid: "list_all valid_name new"
    and np1: "\<not> prefix old new" and np2: "\<not> prefix new old"
    and par: "raw fs (butlast new) = Some DirN"
  shows "wf_fs (move_tree old new fs)"
  unfolding wf_fs_iff
proof (intro ballI)
  fix k' assume "k' \<in> fst ` set (move_tree old new fs)"
  then obtain kv where kv: "kv \<in> set (del_tree new fs)" and k': "k' = rekey old new (fst kv)"
    by (auto simp: move_tree_def)
  define k where "k = fst kv"
  have "k \<in> fst ` set (del_tree new fs)"
    using kv by (simp add: k_def)
  then have k: "k \<in> fst ` set fs" "\<not> prefix new k"
    by (simp_all add: keys_del_tree)
  note k' = k' [folded k_def]
  from wf k have a: "k \<noteq> []" "list_all valid_name k" "raw fs (butlast k) = Some DirN"
    by (auto simp: wf_fs_iff)
  have raw_mt: "\<And>q. raw (move_tree old new fs) q =
      (if q = [] then Some DirN else if prefix new q then map_of fs (old @ drop (length new) q)
       else if prefix old q then None else raw fs q)"
    using map_of_move_tree [OF np2 np1] by (simp add: raw_def)
  show "k' \<noteq> [] \<and> list_all valid_name k' \<and> raw (move_tree old new fs) (butlast k') = Some DirN"
  proof (cases "prefix old k")
    case True
    then obtain r where r: "k = old @ r" by (auto simp: prefix_def)
    have k'': "k' = new @ r" using k' True r by (simp add: rekey_def)
    have v: "list_all valid_name k'" using a(2) nvalid by (simp add: k'' r)
    show ?thesis
    proof (cases "r = []")
      case True
      then have b: "butlast k' = butlast new" using k'' by simp
      have "\<not> prefix new (butlast new)"
        using new by (metis append_butlast_last_id prefix_order.dual_order.antisym prefixeq_butlast not_Cons_self2 self_append_conv)
      moreover have "\<not> prefix old (butlast new)"
        using np1 by (metis prefix_order.trans prefixeq_butlast)
      ultimately have "raw (move_tree old new fs) (butlast new) = raw fs (butlast new)"
        by (simp add: raw_mt) (simp add: raw_def)
      with par b v new k'' show ?thesis by simp
    next
      case False
      then have b: "butlast k' = new @ butlast r" "butlast k = old @ butlast r"
        using k'' r by (simp_all add: butlast_append)
      have "raw (move_tree old new fs) (new @ butlast r) = map_of fs (old @ butlast r)"
        using new by (simp add: raw_mt)
      also have "\<dots> = raw fs (butlast k)"
        using old by (simp add: raw_def b)
      finally show ?thesis using a b v new k'' by simp
    qed
  next
    case False
    then have k'': "k' = k" using k' by (simp add: rekey_def)
    have "\<not> prefix new (butlast k)"
      using k(2) by (metis prefix_order.trans prefixeq_butlast)
    moreover have "\<not> prefix old (butlast k)"
      using False by (metis prefix_order.trans prefixeq_butlast)
    ultimately have "raw (move_tree old new fs) (butlast k) = raw fs (butlast k)"
      by (simp add: raw_mt) (simp add: raw_def)
    with a k'' show ?thesis by simp
  qed
qed

lemma preservesI: "(\<And>fs. P fs \<Longrightarrow> P (snd (m fs))) \<Longrightarrow> preserves P m"
  by (simp add: preserves_def)

lemma preservesD: "preserves P m \<Longrightarrow> P fs \<Longrightarrow> m fs = (r, fs') \<Longrightarrow> P fs'"
  by (auto simp: preserves_def dest: spec [of _ fs])

lemma preserves_ok: "preserves P ok"
  by (simp add: preserves_def ok_def)

lemma preserves_fail: "preserves P (fail e)"
  by (simp add: preserves_def fail_def)

lemma preserves_seq: "preserves P m \<Longrightarrow> preserves P k \<Longrightarrow> preserves P (seq m k)"
  unfolding preserves_def seq_def
  by (auto split: prod.splits sum.splits)

lemma preserves_for_each: "(\<And>x. x \<in> set xs \<Longrightarrow> preserves P (f x)) \<Longrightarrow> preserves P (for_each f xs)"
proof (induction xs)
  case Nil
  have "for_each f [] = ok" by (rule ext) simp
  then show ?case by (simp add: preserves_ok)
next
  case (Cons x xs)
  have "for_each f (x # xs) = seq (f x) (for_each f xs)" by (rule ext) simp
  with Cons show ?case by (simp add: preserves_seq)
qed

lemma preserves_if: "preserves P m \<Longrightarrow> preserves P k \<Longrightarrow> preserves P (\<lambda>fs. if c fs then m fs else k fs)"
  by (simp add: preserves_def)

lemma parent_error_None: "parent_error fs cs = None \<longleftrightarrow> raw fs (butlast cs) = Some DirN"
  by (auto simp: parent_error_def split: option.splits node.splits)

lemma wf_mkdir_c: "list_all valid_name cs \<Longrightarrow> preserves wf_fs (mkdir_c cs)"
proof (rule preservesI)
  fix fs assume v: "list_all valid_name cs" and w: "wf_fs fs"
  show "wf_fs (snd (mkdir_c cs fs))"
  proof (cases "raw fs cs = None \<and> parent_error fs cs = None")
    case True
    then have "cs \<noteq> []" and pe: "parent_error fs cs = None" and rn: "raw fs cs = None"
      by (auto simp: raw_def)
    have "wf_fs (set_node cs DirN fs)"
      using w \<open>cs \<noteq> []\<close> v pe by (intro wf_set_node) (simp_all add: parent_error_None)
    then show ?thesis
      by (simp add: mkdir_c_def ok_def pe rn)
  next
    case False
    with w show ?thesis
      by (auto simp: mkdir_c_def fail_def ok_def split: option.splits)
  qed
qed

lemma list_all_comps: "list_all valid_name (comps p)"
  by (auto simp: list_all_iff dest: comps_valid)

lemma wf_os_mkdir: "preserves wf_fs (os_mkdir p)"
  using wf_mkdir_c [OF list_all_comps, of p]
  by (auto simp: preserves_def os_mkdir_def fail_def)

lemma wf_makedirs_from:
  "list_all valid_name (par @ cs) \<Longrightarrow> preserves wf_fs (makedirs_from par cs)"
proof (induction cs arbitrary: par)
  case Nil
  have "makedirs_from par [] = ok" by (rule ext) simp
  then show ?case by (simp add: preserves_ok)
next
  case (Cons c cs)
  have ih: "preserves wf_fs (makedirs_from (par @ [c]) cs)"
    using Cons.prems by (intro Cons.IH) simp
  have mk: "preserves wf_fs (mkdir_c (par @ [c]))"
    using Cons.prems by (intro wf_mkdir_c) simp
  have ih': "\<And>fs. wf_fs fs \<Longrightarrow> wf_fs (snd (makedirs_from (par @ [c]) cs fs))"
    using ih by (simp add: preserves_def)
  show ?case
  proof (rule preservesI)
    fix fs assume w: "wf_fs fs"
    obtain r fs1 where m: "mkdir_c (par @ [c]) fs = (r, fs1)" by (cases "mkdir_c (par @ [c]) fs")
    have w1: "wf_fs fs1" using preservesD [OF mk w m] .
    show "wf_fs (snd (makedirs_from par (c # cs) fs))"
      using w w1 m ih' [OF w] ih' [OF w1]
      by (cases r) (auto split: if_splits)
  qed
qed

lemma wf_os_makedirs: "preserves wf_fs (os_makedirs p)"
  using wf_makedirs_from [of "[]" "comps p"] list_all_comps [of p]
  by (auto simp: preserves_def os_makedirs_def fail_def)

lemma wf_ensure_dir: "preserves wf_fs (ensure_dir p)"
  using wf_os_makedirs [of p] by (auto simp: preserves_def ensure_dir_def ok_def)

lemma lstat_raw: "lstat fs p = Some n \<Longrightarrow> raw fs (comps p) = Some n"
  by (auto simp: lstat_def split: if_splits option.splits)

lemma lstat_DirN: "lstat fs p = Some DirN \<longleftrightarrow> p \<noteq> [] \<and> raw fs (comps p) = Some DirN"
  by (auto simp: lstat_def split: if_splits option.splits)

lemma wf_fs_parent: "wf_fs fs \<Longrightarrow> raw fs cs = Some n \<Longrightarrow> cs \<noteq> [] \<Longrightarrow> raw fs (butlast cs) = Some DirN"
  by (auto simp: wf_fs_iff dest: raw_Some_key)

lemma wf_os_unlink: "preserves wf_fs (os_unlink p)"
proof (rule preservesI)
  fix fs assume w: "wf_fs fs"
  show "wf_fs (snd (os_unlink p fs))"
  proof (cases "lstat fs p")
    case None
    with w show ?thesis by (simp add: os_unlink_def fail_def)
  next
    case (Some n)
    show ?thesis
    proof (cases "n = DirN")
      case True
      with Some w show ?thesis by (simp add: os_unlink_def fail_def)
    next
      case False
      have "raw fs (comps p) \<noteq> Some DirN"
        using lstat_raw [OF Some] False by simp
      then have "wf_fs (del_node (comps p) fs)"
        using w by (intro wf_del_node) simp_all
      with Some False show ?thesis
        by (cases n) (simp_all add: os_unlink_def ok_def)
    qed
  qed
qed

lemma wf_os_rmdir: "preserves wf_fs (os_rmdir p)"
proof (rule preservesI)
  fix fs assume w: "wf_fs fs"
  have "children fs (comps p) = [] \<Longrightarrow> wf_fs (del_node (comps p) fs)"
    using w by (intro wf_del_node) simp_all
  with w show "wf_fs (snd (os_rmdir p fs))"
    by (auto simp: os_rmdir_def fail_def ok_def split: option.splits node.splits)
qed

lemma wf_shutil_rmtree: "preserves wf_fs (shutil_rmtree p)"
  by (auto simp: preserves_def shutil_rmtree_def fail_def ok_def wf_del_tree
      split: option.splits node.splits)

lemma wf_rm_tree: "preserves wf_fs (rm_tree p)"
  using wf_shutil_rmtree [of p] by (simp add: preserves_def rm_tree_def)

lemma wf_write_node:
  assumes w: "wf_fs fs" and r: "raw fs cs \<noteq> Some DirN" and n: "n \<noteq> DirN"
    and v: "list_all valid_name cs"
    and par: "raw fs cs = None \<Longrightarrow> raw fs (butlast cs) = Some DirN"
  shows "wf_fs (set_node cs n fs)"
proof -
  have ne: "cs \<noteq> []" using r by (auto simp: raw_def)
  have "raw fs (butlast cs) = Some DirN"
    using par wf_fs_parent [OF w _ ne] by (cases "raw fs cs") auto
  then show ?thesis
    using w ne v r by (intro wf_set_node) simp_all
qed

lemma wf_write_file: "n \<noteq> DirN \<Longrightarrow> preserves wf_fs (write_file p n)"
proof (rule preservesI)
  fix fs assume n: "n \<noteq> DirN" and w: "wf_fs fs"
  have a: "raw fs (comps p) \<noteq> Some DirN \<Longrightarrow>
      (raw fs (comps p) = None \<Longrightarrow> parent_error fs (comps p) = None) \<Longrightarrow>
      wf_fs (set_node (comps p) n fs)"
    using w n list_all_comps [of p] by (intro wf_write_node) (auto simp: parent_error_None)
  show "wf_fs (snd (write_file p n fs))"
    using w a by (auto simp: write_file_def fail_def ok_def split: option.splits node.splits)
qed

lemma wf_save_yaml: "preserves wf_fs (save_yaml p config)"
  using wf_write_file [of "InfoN config" p] by (simp add: preserves_def save_yaml_def)

lemma wf_tar_compress: "preserves wf_fs (tar_compress p tar_path root)"
proof (rule preservesI)
  fix fs assume w: "wf_fs fs"
  have 1: "\<And>fs. wf_fs fs \<Longrightarrow> wf_fs (snd (write_file tar_path (ArcN []) fs))"
    using wf_write_file [of "ArcN []" tar_path] by (simp add: preserves_def)
  have 2: "\<And>ms fs. wf_fs fs \<Longrightarrow> wf_fs (snd (write_file tar_path (ArcN ms) fs))"
    using wf_write_file [of "ArcN _" tar_path] by (simp add: preserves_def)
  obtain r fs1 where wr: "write_file tar_path (ArcN []) fs = (r, fs1)"
    by (cases "write_file tar_path (ArcN []) fs")
  have w1: "wf_fs fs1" using 1 [OF w] wr by simp
  show "wf_fs (snd (tar_compress p tar_path root fs))"
    using w w1 wr 2 [OF w1]
    by (cases r) (auto simp: tar_compress_def fail_def split: sum.splits)
qed

lemma wf_shutil_copy2: "preserves wf_fs (shutil_copy2 src dst0)"
proof (rule preservesI)
  fix fs assume w: "wf_fs fs"
  define dst where "dst = (if isdir fs dst0 then join dst0 (basename src) else dst0)"
  have a: "\<And>n. n \<noteq> DirN \<Longrightarrow> raw fs (comps dst) \<noteq> Some DirN \<Longrightarrow>
      (raw fs (comps dst) = None \<Longrightarrow> parent_error fs (comps dst) = None) \<Longrightarrow>
      wf_fs (set_node (comps dst) n fs)"
    using w list_all_comps [of dst] by (intro wf_write_node) (auto simp: parent_error_None)
  show "wf_fs (snd (shutil_copy2 src dst0 fs))"
    unfolding shutil_copy2_def Let_def dst_def [symmetric]
    using w a by (auto simp: fail_def ok_def split: option.splits node.splits)
qed

lemma wf_copy_file: "preserves wf_fs (copy_file src dst dst_fs)"
  using wf_shutil_copy2 [of src dst]
  by (auto simp: preserves_def copy_file_def ok_def split: option.splits)

lemma children_iff:
  "c \<in> set (children fs cs) \<longleftrightarrow> cs @ [c] \<in> fst ` set fs"
proof
  assume "c \<in> set (children fs cs)"
  then obtain k where "k \<in> fst ` set fs" "k \<noteq> []" "butlast k = cs" "c = last k"
    by (auto simp: children_def)
  then show "cs @ [c] \<in> fst ` set fs"
    by (metis append_butlast_last_id)
next
  assume "cs @ [c] \<in> fst ` set fs"
  then show "c \<in> set (children fs cs)"
    unfolding children_def set_remdups set_map set_filter
    by (intro image_eqI [of _ _ "cs @ [c]"]) auto
qed

lemma wf_fs_has_child:
  assumes "wf_fs fs" "k \<in> fst ` set fs" "strict_prefix p k"
  shows "children fs p \<noteq> []"
proof -
  from assms(3) obtain c r where k: "k = p @ c # r"
    by (auto simp: strict_prefix_def prefix_def) (metis list.exhaust append_Nil2)
  have "p @ [c] \<in> fst ` set fs"
  proof (cases "r = []")
    case True
    with k assms(2) show ?thesis by simp
  next
    case False
    then have "strict_prefix (p @ [c]) k"
      by (auto simp: k strict_prefix_def)
    from wf_fs_ancestor [OF assms(1,2) this] show ?thesis
      by (auto dest: raw_Some_key)
  qed
  then have "c \<in> set (children fs p)" by (simp add: children_iff)
  then show ?thesis by auto
qed

lemma wf_os_rename: "preserves wf_fs (os_rename src dst)"
proof (rule preservesI)
  fix fs assume w: "wf_fs fs"
  show "wf_fs (snd (os_rename src dst fs))"
  proof (cases "lstat fs src")
    case None
    with w show ?thesis by (simp add: os_rename_def fail_def)
  next
    case (Some n)
    let ?s = "comps src" and ?d = "comps dst"
    have mv: "wf_fs (move_tree ?s ?d fs)"
      if c: "?s \<noteq> []" "?d \<noteq> []" "?s \<noteq> ?d" "\<not> prefix ?s ?d" "parent_error fs ?d = None"
        and d: "raw fs ?d \<noteq> Some DirN \<or> children fs ?d = []"
    proof -
      have key: "?s \<in> fst ` set fs"
        using lstat_raw [OF Some] c(1) by (auto dest: raw_Some_key)
      have "\<not> prefix ?d ?s"
      proof
        assume "prefix ?d ?s"
        with c(3) have sp: "strict_prefix ?d ?s" by (auto simp: strict_prefix_def)
        from wf_fs_ancestor [OF w key sp] wf_fs_has_child [OF w key sp] d show False
          by simp
      qed
      then show ?thesis
        using w c list_all_comps [of dst]
        by (intro wf_move_tree) (simp_all add: parent_error_None)
    qed
    show ?thesis
      unfolding os_rename_def
      using w mv Some
      by (auto simp: fail_def ok_def split: option.splits node.splits)
  qed
qed

lemma preserves_fuelI: "(\<And>fs r. P fs \<Longrightarrow> m fs = Some r \<Longrightarrow> P (snd r)) \<Longrightarrow> preserves_fuel P m"
  by (simp add: preserves_fuel_def)

lemma preserves_fuelD: "preserves_fuel P m \<Longrightarrow> P fs \<Longrightarrow> m fs = Some (r, fs') \<Longrightarrow> P fs'"
  by (force simp: preserves_fuel_def)

lemma preserves_fuel_Some: "preserves P m \<Longrightarrow> preserves_fuel P (\<lambda>fs. Some (m fs))"
  by (auto simp: preserves_def preserves_fuel_def)

lemma preserves_for_each_fuel:
  "(\<And>x. x \<in> set xs \<Longrightarrow> preserves_fuel P (f x)) \<Longrightarrow> preserves_fuel P (for_each_fuel f xs)"
proof (induction xs)
  case Nil
  then show ?case by (simp add: preserves_fuel_def ok_def)
next
  case (Cons x xs)
  have ih: "preserves_fuel P (for_each_fuel f xs)"
    using Cons by simp
  have fx: "preserves_fuel P (f x)"
    using Cons.prems by simp
  show ?case
  proof (rule preserves_fuelI)
    fix fs r assume p: "P fs" and e: "for_each_fuel f (x # xs) fs = Some r"
    then obtain r1 fs1 where 1: "f x fs = Some (r1, fs1)"
      by (auto split: option.splits)
    have p1: "P fs1" using preserves_fuelD [OF fx p 1] .
    show "P (snd r)"
    proof (cases r1)
      case (Inl e1)
      with e 1 have "r = (Inl e1, fs1)" by simp
      with p1 show ?thesis by simp
    next
      case (Inr u)
      with e 1 have "for_each_fuel f xs fs1 = Some r" by simp
      with ih p1 show ?thesis by (cases r) (auto dest: preserves_fuelD)
    qed
  qed
qed

lemma wf_copy_tree: "preserves_fuel wf_fs (copy_tree n src dst dst_fs)"
proof (induction n arbitrary: src dst)
  case 0
  then show ?case by (simp add: preserves_fuel_def)
next
  case (Suc n)
  show ?case
  proof (rule preserves_fuelI)
    fix fs r assume w: "wf_fs fs" and e: "copy_tree (Suc n) src dst dst_fs fs = Some r"
    obtain r1 fs1 where mk: "os_mkdir dst fs = (r1, fs1)" by (cases "os_mkdir dst fs")
    have w1: "wf_fs fs1" using preservesD [OF wf_os_mkdir w mk] .
    have loop: "\<And>names. preserves_fuel wf_fs
       (for_each_fuel
          (\<lambda>name fs1.
             if isdir fs1 (join src name)
             then (if islink fs1 (join src name)
                   then Some (copy_file (join src name) (join dst name) dst_fs fs1)
                   else copy_tree n (join src name) (join dst name) dst_fs fs1)
             else Some (copy_file (join src name) (join dst name) dst_fs fs1))
          names)"
    proof (rule preserves_for_each_fuel)
      fix name
      show "preserves_fuel wf_fs
         (\<lambda>fs1. if isdir fs1 (join src name)
             then (if islink fs1 (join src name)
                   then Some (copy_file (join src name) (join dst name) dst_fs fs1)
                   else copy_tree n (join src name) (join dst name) dst_fs fs1)
             else Some (copy_file (join src name) (join dst name) dst_fs fs1))"
        using Suc.IH [of "join src name" "join dst name"]
          wf_copy_file [of "join src name" "join dst name" dst_fs]
        by (auto simp: preserves_fuel_def preserves_def)
    qed
    have w1': "wf_fs (snd (os_mkdir dst fs))"
      using mk w1 by simp
    have l: "\<And>names. for_each_fuel
          (\<lambda>name fs1.
             if isdir fs1 (join src name)
             then (if islink fs1 (join src name)
                   then Some (copy_file (join src name) (join dst name) dst_fs fs1)
                   else copy_tree n (join src name) (join dst name) dst_fs fs1)
             else Some (copy_file (join src name) (join dst name) dst_fs fs1))
          names fs1 = Some r \<Longrightarrow> wf_fs (snd r)"
      using loop w1 unfolding preserves_fuel_def by blast
    show "wf_fs (snd r)"
    proof (cases "case dst_fs of None \<Rightarrow> False | Some t \<Rightarrow> \<not> is_path_allowed t dst")
      case True
      with e w show ?thesis by (auto simp: ok_def)
    next
      case False
      show ?thesis
      proof (cases r1)
        case (Inl a)
        with e mk False w1 show ?thesis by auto
      next
        case (Inr u)
        show ?thesis
        proof (cases "os_listdir fs1 src")
          case (Inl a)
          with e mk False Inr w1 show ?thesis by auto
        next
          case names: (Inr names)
          with e mk False Inr have "for_each_fuel
          (\<lambda>name fs1.
             if isdir fs1 (join src name)
             then (if islink fs1 (join src name)
                   then Some (copy_file (join src name) (join dst name) dst_fs fs1)
                   else copy_tree n (join src name) (join dst name) dst_fs fs1)
             else Some (copy_file (join src name) (join dst name) dst_fs fs1))
          names fs1 = Some r" by simp
          then show ?thesis by (rule l)
        qed
      qed
    qed
  qed
qed

subsection \<open>The engine keeps the file system a file system\<close>

lemma wf_copy_files_step: "preserves wf_fs (copy_files_step src dst dst_fs p)"
proof -
  have 1: "preserves wf_fs (\<lambda>fs'. if islink fs' (join src p) \<or> isfile fs' (join src p)
                     then copy_file (join src p) (join dst p) None fs'
                     else if isdir fs' (join src p)
                     then (if \<not> exists fs' (join dst p) then os_mkdir (join dst p) fs' else ok fs')
                     else ok fs')"
    using wf_copy_file [of "join src p" "join dst p" None] wf_os_mkdir [of "join dst p"]
    by (auto simp: preserves_def ok_def)
  have "preserves wf_fs (seq (ensure_dir (dirname (join dst p)))
             (\<lambda>fs'. if islink fs' (join src p) \<or> isfile fs' (join src p)
                     then copy_file (join src p) (join dst p) None fs'
                     else if isdir fs' (join src p)
                     then (if \<not> exists fs' (join dst p) then os_mkdir (join dst p) fs' else ok fs')
                     else ok fs'))"
    using wf_ensure_dir 1 by (rule preserves_seq)
  then show ?thesis
    by (auto simp: preserves_def copy_files_step_def ok_def)
qed

lemma wf_copy_files: "preserves wf_fs (copy_files files src dst dst_fs)"
proof -
  have "copy_files files src dst dst_fs
      = for_each (copy_files_step src dst dst_fs) (sort (map path files))"
    by (rule ext) (simp add: copy_files_def)
  then show ?thesis
    by (simp add: preserves_for_each wf_copy_files_step)
qed

lemma wf_remove_files_step: "preserves wf_fs (remove_files_step p)"
  using wf_os_unlink [of p] wf_os_rmdir [of p]
  by (auto simp: preserves_def remove_files_step_def ok_def fail_def split: sum.splits)

lemma wf_remove_files: "preserves wf_fs (remove_files files root)"
proof -
  have "remove_files files root
      = for_each remove_files_step (rev (sort (map (\<lambda>f. join root (path f)) files)))"
    by (rule ext) (simp add: remove_files_def)
  then show ?thesis
    by (simp add: preserves_for_each wf_remove_files_step)
qed

lemma preserves_cond: "preserves P m \<Longrightarrow> preserves P k \<Longrightarrow> preserves P (if c then m else k)"
  by simp

lemma wf_diff_rewrite: "preserves wf_fs (diff_rewrite s data_path prev_data_path dm)"
  unfolding diff_rewrite_def
  by (intro preserves_seq preserves_cond preserves_ok wf_os_rename wf_os_mkdir wf_copy_files
      wf_remove_files wf_tar_compress wf_rm_tree)

lemma wf_save_info: "preserves wf_fs (save_info info_path dt key dm)"
proof -
  have "save_info info_path dt key dm = save_yaml info_path (prepare_info dt key dm)"
    by (intro ext) (simp add: save_info_def)
  then show ?thesis by (simp add: wf_save_yaml)
qed

lemma wf_plain_copy_data: "preserves_fuel wf_fs (plain_copy_data fuel s data_path)"
proof (cases "s_compress s")
  case True
  then have "plain_copy_data fuel s data_path
      = (\<lambda>fs. Some (tar_compress (s_source s) (data_path @ ''.tar.gz'') data_dir fs))"
    by (intro ext) (simp add: plain_copy_data_def)
  then show ?thesis
    by (simp add: preserves_fuel_Some wf_tar_compress)
next
  case False
  then have "plain_copy_data fuel s data_path
      = copy_tree fuel (s_source s) data_path (Some (s_target_fs s))"
    by (intro ext) (simp add: plain_copy_data_def)
  then show ?thesis
    by (simp add: wf_copy_tree)
qed

lemma wf_diff_copy_data: "preserves_fuel wf_fs (diff_copy_data fuel s data_path dm)"
proof (rule preserves_fuelI)
  fix fs r assume w: "wf_fs fs" and e: "diff_copy_data fuel s data_path dm fs = Some r"
  show "wf_fs (snd r)"
  proof (cases "get_last_key fs s 2")
    case (Inl a)
    with e w show ?thesis by (auto simp: diff_copy_data_def)
  next
    case (Inr prev_key)
    have ct: "copy_tree fuel (s_source s) data_path (Some (s_target_fs s)) fs = Some r
        \<Longrightarrow> wf_fs (snd r)"
      using preserves_fuelD [OF wf_copy_tree w] by (cases r) auto
    have dr: "\<And>p. r = diff_rewrite s data_path p dm fs \<Longrightarrow> wf_fs (snd r)"
      using wf_diff_rewrite w by (simp add: preserves_def)
    show ?thesis
    proof (cases prev_key)
      case None
      with e Inr have "copy_tree fuel (s_source s) data_path (Some (s_target_fs s)) fs = Some r"
        by (simp add: diff_copy_data_def)
      then show ?thesis by (rule ct)
    next
      case (Some k)
      show ?thesis
      proof (cases "k = []")
        case True
        with e Inr Some have "copy_tree fuel (s_source s) data_path (Some (s_target_fs s)) fs = Some r"
          by (simp add: diff_copy_data_def)
        then show ?thesis by (rule ct)
      next
        case False
        with e Inr Some have "r = diff_rewrite s data_path (join (join (s_path s) k) data_dir) dm fs"
          by (simp add: diff_copy_data_def)
        then show ?thesis by (rule dr)
      qed
    qed
  qed
qed

lemma wf_copy_data: "preserves_fuel wf_fs (copy_data cm fuel s data_path dm)"
proof (cases cm)
  case PlainCopyMixin
  then have "copy_data cm fuel s data_path dm = plain_copy_data fuel s data_path"
    by (intro ext) (simp add: copy_data_def)
  then show ?thesis by (simp add: wf_plain_copy_data)
next
  case DiffCopyMixin
  then have "copy_data cm fuel s data_path dm = diff_copy_data fuel s data_path dm"
    by (intro ext) (simp add: copy_data_def)
  then show ?thesis by (simp add: wf_diff_copy_data)
qed

lemma wf_last_remove_extra: "preserves wf_fs (last_remove_extra s key)"
proof (rule preservesI)
  fix fs assume w: "wf_fs fs"
  have "\<And>keys. preserves wf_fs
      (for_each (\<lambda>k. if k \<noteq> key then rm_tree (join (s_path s) k) else ok) keys)"
    by (intro preserves_for_each) (auto simp: wf_rm_tree preserves_ok)
  with w show "wf_fs (snd (last_remove_extra s key fs))"
    by (auto simp: last_remove_extra_def preserves_def fail_def split: sum.splits)
qed

lemma wf_full_remove_extra: "preserves wf_fs (full_remove_extra s)"
proof (rule preservesI)
  fix fs assume w: "wf_fs fs"
  have "\<And>keys. preserves wf_fs (for_each (\<lambda>k. rm_tree (join (s_path s) k)) keys)"
    by (intro preserves_for_each) (auto simp: wf_rm_tree)
  with w show "wf_fs (snd (full_remove_extra s fs))"
    by (auto simp: full_remove_extra_def preserves_def fail_def ok_def split: sum.splits option.splits)
qed

lemma wf_remove_extra: "preserves wf_fs (remove_extra em s key)"
  using wf_last_remove_extra [of s key] wf_full_remove_extra [of s]
  by (cases em) (auto simp: preserves_def remove_extra_def)

text \<open>The steps of a run that made a snapshot and returned.\<close>

lemma make_success_steps:
  assumes m: "make fuel cls s dt fs = Some (Inr (), fs')"
    and d: "build_diff_map fs s = Inr dm" and h: "has_changes dm"
    and k: "build_key (s_fmt s) dt = Some key"
  obtains fs1 fs2 fs3 where
    "ensure_dir (join (s_path s) key) fs = (Inr (), fs1)"
    "copy_data (fst cls) fuel s (join (join (s_path s) key) data_dir) dm fs1 = Some (Inr (), fs2)"
    "save_info (join (join (s_path s) key) info_file) dt key dm fs2 = (Inr (), fs3)"
    "remove_extra (snd cls) s key fs3 = (Inr (), fs')"
proof -
  obtain r1 fs1 where 1: "ensure_dir (join (s_path s) key) fs = (r1, fs1)"
    by (cases "ensure_dir (join (s_path s) key) fs")
  have r1: "r1 = Inr ()"
    using m d h k 1 by (cases r1) (auto simp: make_def)
  obtain r2 fs2 where 2: "copy_data (fst cls) fuel s (join (join (s_path s) key) data_dir) dm fs1
      = Some (r2, fs2)"
    using m d h k 1 r1 by (auto simp: make_def split: option.splits)
  have r2: "r2 = Inr ()"
    using m d h k 1 r1 2 by (cases r2) (auto simp: make_def)
  obtain r3 fs3 where 3: "save_info (join (join (s_path s) key) info_file) dt key dm fs2 = (r3, fs3)"
    by (cases "save_info (join (join (s_path s) key) info_file) dt key dm fs2")
  have s: "seq (save_info (join (join (s_path s) key) info_file) dt key dm)
       (remove_extra (snd cls) s key) fs2 = (Inr (), fs')"
    using m d h k 1 r1 2 r2 by (simp add: make_def)
  have r3: "r3 = Inr ()"
    using s 3 by (cases r3) (auto simp: seq_def)
  have 4: "remove_extra (snd cls) s key fs3 = (Inr (), fs')"
    using s 3 r3 by (simp add: seq_def)
  show thesis
    using that 1 2 3 4 r1 r2 r3 by simp
qed

section \<open>Retention\<close>

lemma raw_Nil: "raw fs [] = Some DirN"
  by (simp add: raw_def)

lemma shutil_rmtree_Inr: "shutil_rmtree p fs = (Inr (), fs') \<Longrightarrow> fs' = del_tree (comps p) fs \<and> lstat fs p = Some DirN"
  by (auto simp: shutil_rmtree_def fail_def ok_def split: option.splits node.splits if_splits)

lemma rm_loop_raw:
  assumes "for_each (\<lambda>k. if P k then rm_tree (join sp k) else ok) ks fs = (Inr (), fs')"
    and "\<forall>k\<in>set ks. valid_name k"
  shows "raw fs' q = (if \<exists>k\<in>set ks. P k \<and> prefix (comps sp @ [k]) q then None else raw fs q)"
  using assms
proof (induction ks arbitrary: fs)
  case Nil
  then show ?case by (simp add: ok_def)
next
  case (Cons k ks)
  show ?case
  proof (cases "P k")
    case True
    obtain r fs1 where 1: "rm_tree (join sp k) fs = (r, fs1)" by (cases "rm_tree (join sp k) fs")
    with Cons.prems True have r: "r = Inr ()" and rest:
      "for_each (\<lambda>k. if P k then rm_tree (join sp k) else ok) ks fs1 = (Inr (), fs')"
      by (cases r; simp add: seq_def)+
    have fs1: "fs1 = del_tree (comps sp @ [k]) fs"
      using 1 r Cons.prems(2) shutil_rmtree_Inr [of "join sp k" fs fs1]
      by (simp add: rm_tree_def comps_join_name)
    have "raw fs' q = (if \<exists>k\<in>set ks. P k \<and> prefix (comps sp @ [k]) q then None else raw fs1 q)"
      using Cons.IH [OF rest] Cons.prems(2) by simp
    then show ?thesis
      using True by (auto simp: fs1 raw_del_tree raw_Nil)
  next
    case False
    with Cons.prems have rest:
      "for_each (\<lambda>k. if P k then rm_tree (join sp k) else ok) ks fs = (Inr (), fs')"
      by (simp add: seq_def ok_def)
    have "raw fs' q = (if \<exists>k\<in>set ks. P k \<and> prefix (comps sp @ [k]) q then None else raw fs q)"
      using Cons.IH [OF rest] Cons.prems(2) by simp
    then show ?thesis
      using False by auto
  qed
qed

lemma children_raw: "c \<in> set (children fs cs) \<longleftrightarrow> raw fs (cs @ [c]) \<noteq> None"
  by (simp add: children_iff raw_None_key)

lemma children_valid: "wf_fs fs \<Longrightarrow> c \<in> set (children fs cs) \<Longrightarrow> valid_name c"
  by (auto simp: children_iff wf_fs_iff list_all_iff)

lemma distinct_children: "distinct (children fs cs)"
  by (simp add: children_def)

lemma rm_loop_children:
  assumes "for_each (\<lambda>k. if P k then rm_tree (join sp k) else ok) ks fs = (Inr (), fs')"
    and "\<forall>k\<in>set ks. valid_name k"
  shows "set (children fs' (comps sp)) = {c \<in> set (children fs (comps sp)). \<not> (c \<in> set ks \<and> P c)}"
  by (auto simp: children_raw rm_loop_raw [OF assms] split: if_splits)

lemma rm_loop_lstat:
  assumes "for_each (\<lambda>k. if P k then rm_tree (join sp k) else ok) ks fs = (Inr (), fs')"
    and "\<forall>k\<in>set ks. valid_name k"
  shows "lstat fs' sp = lstat fs sp"
proof -
  have "raw fs' (comps sp) = raw fs (comps sp)"
    by (simp add: rm_loop_raw [OF assms])
  then show ?thesis by (simp add: lstat_def)
qed

lemma os_listdir_Inr: "os_listdir fs p = Inr ks \<longleftrightarrow> lstat fs p = Some DirN \<and> ks = children fs (comps p)"
  by (auto simp: os_listdir_def split: option.splits node.splits)

lemma distinct_singleton: "distinct xs \<Longrightarrow> set xs = {a} \<Longrightarrow> xs = [a]"
proof (cases xs)
  case Nil
  then show "set xs = {a} \<Longrightarrow> xs = [a]" by simp
next
  case (Cons x ys)
  assume d: "distinct xs" and s: "set xs = {a}"
  from s Cons have x: "x = a" and sub: "set ys \<subseteq> {a}" by auto
  from d Cons x have "a \<notin> set ys" by simp
  with sub have "ys = []" by (cases ys) auto
  with Cons x show "xs = [a]" by simp
qed

lemma write_file_Inr:
  assumes "write_file p n fs = (Inr (), fs')"
  shows "fs' = set_node (comps p) n fs \<and> comps p \<noteq> []"
proof -
  have ne: "comps p \<noteq> []"
  proof
    assume "comps p = []"
    then have "raw fs (comps p) = Some DirN" by (simp add: raw_Nil)
    with assms show False by (simp add: write_file_def fail_def split: if_splits)
  qed
  have "fs' = set_node (comps p) n fs"
  proof (cases "raw fs (comps p)")
    case None
    with assms show ?thesis
      by (simp add: write_file_def fail_def ok_def split: if_splits option.splits)
  next
    case (Some m)
    with assms show ?thesis
      by (cases m) (simp_all add: write_file_def fail_def ok_def split: if_splits)
  qed
  with ne show ?thesis by simp
qed

lemma save_info_Inr:
  assumes "save_info info_path dt key dm fs = (Inr (), fs')" "wf_fs fs"
  shows "raw fs' (butlast (comps info_path)) = Some DirN"
proof -
  from assms(1) have fs': "fs' = set_node (comps info_path) (InfoN (prepare_info dt key dm)) fs"
    and ne: "comps info_path \<noteq> []"
    using write_file_Inr by (auto simp: save_info_def save_yaml_def)
  have w: "wf_fs fs'"
    using preservesD [OF wf_save_info assms(2,1)] .
  have "raw fs' (comps info_path) = Some (InfoN (prepare_info dt key dm))"
    using ne by (simp add: fs' raw_set_node)
  from wf_fs_parent [OF w this ne] show ?thesis .
qed

lemma valid_name_info_file: "valid_name info_file"
  by (simp add: valid_name_def info_file_def)

lemma valid_name_data_dir: "valid_name data_dir"
  by (simp add: valid_name_def data_dir_def)

lemma make_success_key_dir:
  assumes w: "wf_fs fs"
    and 1: "ensure_dir (join (s_path s) key) fs = (Inr (), fs1)"
    and 2: "copy_data cm fuel s (join (join (s_path s) key) data_dir) dm fs1 = Some (Inr (), fs2)"
    and 3: "save_info (join (join (s_path s) key) info_file) dt key dm fs2 = (Inr (), fs3)"
    and v: "valid_name key"
  shows "wf_fs fs3 \<and> raw fs3 (comps (s_path s) @ [key]) = Some DirN"
proof -
  have w1: "wf_fs fs1" using preservesD [OF wf_ensure_dir w 1] .
  have w2: "wf_fs fs2" using preserves_fuelD [OF wf_copy_data w1 2] .
  have w3: "wf_fs fs3" using preservesD [OF wf_save_info w2 3] .
  have c: "comps (join (join (s_path s) key) info_file) = (comps (s_path s) @ [key]) @ [info_file]"
    using v by (simp add: comps_join_name valid_name_info_file)
  have b: "butlast ((comps (s_path s) @ [key]) @ [info_file]) = comps (s_path s) @ [key]"
    by (simp only: butlast_snoc)
  from save_info_Inr [OF 3 w2] have "raw fs3 (comps (s_path s) @ [key]) = Some DirN"
    unfolding c b .
  with w3 show ?thesis by simp
qed

text \<open>
  Claim C8, as the code has it: with \<open>LastExtraMixin\<close> (the mirror method), when the key
  is a single path name (not \<open>.\<close> or \<open>..\<close>, as are the names of the configured paths),
  after a run of \<open>make\<close> that made a snapshot and returned, the
  repository lists exactly one entry, the key just made, and it is a directory. (A key
  format with a separator gives a key that the listing never shows, and the run then
  removes the snapshot it has just made.)
\<close>

theorem last_remove_extra_keeps_only_new_key:
  assumes w: "wf_fs fs"
    and m: "make fuel (cm, LastExtraMixin) s dt fs = Some (Inr (), fs')"
    and d: "build_diff_map fs s = Inr dm" and h: "has_changes dm"
    and k: "build_key (s_fmt s) dt = Some key" and v: "plain_name key"
    and pp: "plain_path (s_path s)" "plain_path (s_source s)"
  shows "os_listdir fs' (s_path s) = Inr [key] \<and> isdir fs' (join (s_path s) key)"
proof -
  have vk: "valid_name key" using v by (simp add: plain_name_def)
  from make_success_steps [OF m d h k] obtain fs1 fs2 fs3 where
    1: "ensure_dir (join (s_path s) key) fs = (Inr (), fs1)" and
    2: "copy_data cm fuel s (join (join (s_path s) key) data_dir) dm fs1 = Some (Inr (), fs2)" and
    3: "save_info (join (join (s_path s) key) info_file) dt key dm fs2 = (Inr (), fs3)" and
    4: "remove_extra LastExtraMixin s key fs3 = (Inr (), fs')"
    by auto
  from make_success_key_dir [OF w 1 2 3 vk] have w3: "wf_fs fs3"
    and kd: "raw fs3 (comps (s_path s) @ [key]) = Some DirN"
    by simp_all
  let ?S = "comps (s_path s)"
  from 4 have l: "last_remove_extra s key fs3 = (Inr (), fs')"
    by (simp add: remove_extra_def)
  then obtain keys where ls: "os_listdir fs3 (s_path s) = Inr keys"
    and loop: "for_each (\<lambda>k. if k \<noteq> key then rm_tree (join (s_path s) k) else ok) keys fs3
        = (Inr (), fs')"
    by (auto simp: last_remove_extra_def fail_def split: sum.splits)
  from ls have st: "lstat fs3 (s_path s) = Some DirN" and keys: "keys = children fs3 ?S"
    by (simp_all add: os_listdir_Inr)
  have val: "\<forall>k\<in>set keys. valid_name k"
    using children_valid [OF w3] keys by blast
  have kin: "key \<in> set keys"
    using kd by (simp add: keys children_raw)
  have "set (children fs' ?S) = {c \<in> set keys. \<not> (c \<in> set keys \<and> c \<noteq> key)}"
    using rm_loop_children [OF loop val] keys by simp
  also have "\<dots> = {key}"
    using kin by auto
  finally have "children fs' ?S = [key]"
    using distinct_children by (intro distinct_singleton) simp_all
  moreover have "lstat fs' (s_path s) = Some DirN"
    using rm_loop_lstat [OF loop val] st by simp
  ultimately have a: "os_listdir fs' (s_path s) = Inr [key]"
    by (simp add: os_listdir_Inr)
  have "raw fs' (?S @ [key]) = Some DirN"
    using kd by (simp add: rm_loop_raw [OF loop val])
  then have b: "isdir fs' (join (s_path s) key)"
    using vk by (simp add: isdir_def lstat_DirN comps_join_name join_not_empty valid_name_def)
  from a b show ?thesis by simp
qed


section \<open>The theorems at the example states\<close>

theorem last_remove_extra_keeps_only_new_key_witness:
  "wf_fs ex_fs \<and> has_changes ex_diff_map \<and> plain_name ''20240102-010000000000'' \<and>
   plain_path (s_path (ex_source ''last'' False None)) \<and>
   plain_path (s_source (ex_source ''last'' False None)) \<and>
   build_diff_map ex_fs (ex_source ''last'' False None) = Inr ex_diff_map \<and>
   build_key (s_fmt (ex_source ''last'' False None)) (ex_dt 1) = Some ''20240102-010000000000'' \<and>
   map_option fst (make 3 (PlainCopyMixin, LastExtraMixin) (ex_source ''last'' False None) (ex_dt 1) ex_fs)
     = Some (Inr ()) \<and>
   os_listdir (snd (the (make 3 (PlainCopyMixin, LastExtraMixin) (ex_source ''last'' False None)
        (ex_dt 1) ex_fs))) (s_path (ex_source ''last'' False None))
     = Inr [''20240102-010000000000''] \<and>
   isdir (snd (the (make 3 (PlainCopyMixin, LastExtraMixin) (ex_source ''last'' False None)
        (ex_dt 1) ex_fs))) (join (s_path (ex_source ''last'' False None)) ''20240102-010000000000'')"
proof -
  have w: "wf_fs ex_fs" by code_simp
  have h: "has_changes ex_diff_map" by code_simp
  have v: "plain_name ''20240102-010000000000''" by code_simp
  have p1: "plain_path (s_path (ex_source ''last'' False None))" by code_simp
  have p2: "plain_path (s_source (ex_source ''last'' False None))" by code_simp
  have d: "build_diff_map ex_fs (ex_source ''last'' False None) = Inr ex_diff_map" by code_simp
  have k: "build_key (s_fmt (ex_source ''last'' False None)) (ex_dt 1) = Some ''20240102-010000000000''"
    by code_simp
  have m1: "map_option fst (make 3 (PlainCopyMixin, LastExtraMixin) (ex_source ''last'' False None) (ex_dt 1) ex_fs)
     = Some (Inr ())" by code_simp
  then have m: "make 3 (PlainCopyMixin, LastExtraMixin) (ex_source ''last'' False None) (ex_dt 1) ex_fs
     = Some (Inr (), snd (the (make 3 (PlainCopyMixin, LastExtraMixin) (ex_source ''last'' False None)
        (ex_dt 1) ex_fs)))"
    by (cases "make 3 (PlainCopyMixin, LastExtraMixin) (ex_source ''last'' False None) (ex_dt 1) ex_fs")
       auto
  show ?thesis
    using last_remove_extra_keeps_only_new_key [OF w m d h k v p1 p2] w h v p1 p2 d k m1 by simp
qed

text \<open>
  Claim C8 as stated fails: with the key format \<open>Y/m/d\<close> the key is a path of three
  names; the listing of the repository shows \<open>2024\<close>, which differs from the key, and the
  run removes it with the snapshot it has just made. No snapshot directory is left.
\<close>

theorem last_remove_extra_separator_counterexample:
  "create_backup_from_source ((ex_source ''last'' False None)\<lparr>s_fmt := ''Y/m/d''\<rparr>)
     = Inr (PlainCopyMixin, LastExtraMixin) \<and>
   has_changes ex_diff_map \<and>
   build_diff_map ex_fs ((ex_source ''last'' False None)\<lparr>s_fmt := ''Y/m/d''\<rparr>) = Inr ex_diff_map \<and>
   build_key ''Y/m/d'' (ex_dt 1) = Some ''2024/01/02'' \<and>
   map_option fst (make 3 (PlainCopyMixin, LastExtraMixin)
       ((ex_source ''last'' False None)\<lparr>s_fmt := ''Y/m/d''\<rparr>) (ex_dt 1) ex_fs) = Some (Inr ()) \<and>
   os_listdir (snd (the (make 3 (PlainCopyMixin, LastExtraMixin)
       ((ex_source ''last'' False None)\<lparr>s_fmt := ''Y/m/d''\<rparr>) (ex_dt 1) ex_fs))) ''/bk/s'' = Inr []"
  by code_simp

end
